theory Spec2Isabelle
  imports Complex_Main "HOL-Library.Log_Nat"
begin

section \<open>JavaScript numbers\<close>

text \<open>
  The arithmetic of \<^verbatim>\<open>src/utils.ts\<close> is on JavaScript numbers, the IEEE 754 doubles. A
  number is modelled as one of the special values NaN, +Infinity, -Infinity, the negative
  zero, or a finite value \<open>Fin r\<close> with \<open>r\<close> a rational (\<open>Fin 0\<close> is the positive zero).
  The operators follow ECMAScript on the special values and on the sign of zero; on
  finite values \<^verbatim>\<open>*\<close>, \<^verbatim>\<open>/\<close> and \<^verbatim>\<open>-\<close> round the exact result to the nearest double, ties to
  the even significand, with overflow to an infinity and underflow through the
  subnormal numbers to a zero; \<^verbatim>\<open>%\<close>, \<^verbatim>\<open>Math.floor\<close> and \<^verbatim>\<open>Math.ceil\<close> are exact.
\<close>

datatype jsnum = NaN | PInf | NInf | NZero | Fin rat

fun Number_isNaN :: "jsnum \<Rightarrow> bool" where
  "Number_isNaN NaN = True"
| "Number_isNaN _ = False"

fun isInf :: "jsnum \<Rightarrow> bool" where
  "isInf PInf = True"
| "isInf NInf = True"
| "isInf _ = False"

fun isZero :: "jsnum \<Rightarrow> bool" where
  "isZero NZero = True"
| "isZero (Fin r) = (r = 0)"
| "isZero _ = False"

text \<open>The sign bit (of no use on NaN) and the rational value of a finite number.\<close>

fun isNeg :: "jsnum \<Rightarrow> bool" where
  "isNeg NInf = True"
| "isNeg NZero = True"
| "isNeg (Fin r) = (r < 0)"
| "isNeg _ = False"

fun val :: "jsnum \<Rightarrow> rat" where
  "val (Fin r) = r"
| "val _ = 0"

definition zero_of :: "bool \<Rightarrow> jsnum" where
  "zero_of neg = (if neg then NZero else Fin 0)"

definition inf_of :: "bool \<Rightarrow> jsnum" where
  "inf_of neg = (if neg then NInf else PInf)"

text \<open>An exact finite result \<open>r\<close>; when it is zero, the zero has the sign given.\<close>

definition exact_of :: "rat \<Rightarrow> bool \<Rightarrow> jsnum" where
  "exact_of r neg = (if r = 0 then zero_of neg else Fin r)"

subsection \<open>Rounding to a double\<close>

text \<open>
  The binary exponent of a positive rational: \<open>2 powi expo x \<le> x < 2 powi (expo x + 1)\<close>.
\<close>

definition expo :: "rat \<Rightarrow> int" where
  "expo x = (if 1 \<le> x then bitlen \<lfloor>x\<rfloor> - 1 else - bitlen (\<lceil>1 / x\<rceil> - 1))"

text \<open>
  The exponent of the unit in the last place: 52 bits below the leading bit, and not
  below that of the subnormal numbers.
\<close>

definition ulp_exp :: "rat \<Rightarrow> int" where
  "ulp_exp x = max (expo x) (- 1022) - 52"

definition round_half_even :: "rat \<Rightarrow> int" where
  "round_half_even q =
     (let f = \<lfloor>q\<rfloor>; r = q - of_int f
      in if r < 1 / 2 then f else if 1 / 2 < r then f + 1
         else if even f then f else f + 1)"

definition round_pos :: "rat \<Rightarrow> rat" where
  "round_pos x = of_int (round_half_even (x / 2 powi ulp_exp x)) * 2 powi ulp_exp x"

definition round_double :: "rat \<Rightarrow> rat" where
  "round_double x = (if x = 0 then 0 else if 0 < x then round_pos x else - round_pos (- x))"

text \<open>The least magnitude that overflows once rounded, \<open>2 ^ 1024\<close>, written out.\<close>

definition OVERFLOW :: rat where
  "OVERFLOW =
     179769313486231590772930519078902473361797697894230657273430081157732675805500963132708477322407536021120113879871393357658789768814416622492847430639474124377767893424865485276302219601246094119453082952085005768838150682342462881473913110540827237163350510684586298239947245938479716304835356329624224137216"

text \<open>The finite doubles.\<close>

definition isDouble :: "rat \<Rightarrow> bool" where
  "isDouble r = (round_double r = r \<and> \<bar>r\<bar> < OVERFLOW)"

text \<open>
  The double of an exact result \<open>r\<close>: a zero result has the sign given; a result that
  rounds to zero or beyond the largest double keeps its own sign.
\<close>

definition round_of :: "rat \<Rightarrow> bool \<Rightarrow> jsnum" where
  "round_of r neg =
     (if r = 0 then zero_of neg
      else (let y = round_double r
            in if OVERFLOW \<le> \<bar>y\<bar> then inf_of (r < 0)
               else if y = 0 then zero_of (r < 0) else Fin y))"

text \<open>\<^verbatim>\<open>a * b\<close>\<close>

definition js_times :: "jsnum \<Rightarrow> jsnum \<Rightarrow> jsnum" where
  "js_times a b =
     (if Number_isNaN a \<or> Number_isNaN b then NaN
      else if (isInf a \<and> isZero b) \<or> (isZero a \<and> isInf b) then NaN
      else if isInf a \<or> isInf b then inf_of (isNeg a \<noteq> isNeg b)
      else round_of (val a * val b) (isNeg a \<noteq> isNeg b))"

text \<open>\<^verbatim>\<open>a / b\<close>\<close>

definition js_divide :: "jsnum \<Rightarrow> jsnum \<Rightarrow> jsnum" where
  "js_divide a b =
     (if Number_isNaN a \<or> Number_isNaN b then NaN
      else if (isInf a \<and> isInf b) \<or> (isZero a \<and> isZero b) then NaN
      else if isInf a \<or> isZero b then inf_of (isNeg a \<noteq> isNeg b)
      else if isInf b then zero_of (isNeg a \<noteq> isNeg b)
      else round_of (val a / val b) (isNeg a \<noteq> isNeg b))"

text \<open>\<^verbatim>\<open>a - b\<close>: an exact zero difference is the positive zero, except \<open>(-0) - (+0)\<close>.\<close>

definition js_minus :: "jsnum \<Rightarrow> jsnum \<Rightarrow> jsnum" where
  "js_minus a b =
     (if Number_isNaN a \<or> Number_isNaN b then NaN
      else if isInf a \<and> isInf b then (if isNeg a = isNeg b then NaN else a)
      else if isInf a then a
      else if isInf b then inf_of (\<not> isNeg b)
      else round_of (val a - val b) (a = NZero \<and> b = Fin 0))"

text \<open>
  \<^verbatim>\<open>a % b\<close>: the remainder of the division truncated towards zero; it has the sign of the
  dividend.
\<close>

definition trunc :: "rat \<Rightarrow> int" where
  "trunc q = (if 0 \<le> q then \<lfloor>q\<rfloor> else \<lceil>q\<rceil>)"

definition js_rem :: "jsnum \<Rightarrow> jsnum \<Rightarrow> jsnum" where
  "js_rem a b =
     (if Number_isNaN a \<or> Number_isNaN b then NaN
      else if isInf a \<or> isZero b then NaN
      else if isInf b \<or> isZero a then a
      else exact_of (val a - val b * of_int (trunc (val a / val b))) (isNeg a))"

fun Math_floor :: "jsnum \<Rightarrow> jsnum" where
  "Math_floor (Fin r) = Fin (of_int \<lfloor>r\<rfloor>)"
| "Math_floor x = x"

fun Math_ceil :: "jsnum \<Rightarrow> jsnum" where
  "Math_ceil (Fin r) = exact_of (of_int \<lceil>r\<rceil>) (r < 0)"
| "Math_ceil x = x"

text \<open>\<^verbatim>\<open>a < b\<close>, \<^verbatim>\<open>a > b\<close>, \<^verbatim>\<open>a <= b\<close> and \<^verbatim>\<open>a === b\<close>: false when an operand is NaN; the
  two zeros are equal.\<close>

definition js_less :: "jsnum \<Rightarrow> jsnum \<Rightarrow> bool" where
  "js_less a b =
     (if Number_isNaN a \<or> Number_isNaN b then False
      else if a = PInf \<or> b = NInf then False
      else if a = NInf \<or> b = PInf then True
      else val a < val b)"

definition js_greater :: "jsnum \<Rightarrow> jsnum \<Rightarrow> bool" where
  "js_greater a b = js_less b a"

definition js_less_eq :: "jsnum \<Rightarrow> jsnum \<Rightarrow> bool" where
  "js_less_eq a b =
     (if Number_isNaN a \<or> Number_isNaN b then False else \<not> js_less b a)"

definition js_strict_eq :: "jsnum \<Rightarrow> jsnum \<Rightarrow> bool" where
  "js_strict_eq a b =
     (if Number_isNaN a \<or> Number_isNaN b then False
      else if isInf a \<or> isInf b then a = b
      else val a = val b)"

fun isFinite :: "jsnum \<Rightarrow> bool" where
  "isFinite NZero = True"
| "isFinite (Fin r) = True"
| "isFinite _ = False"

section \<open>Fitting a size: \<^verbatim>\<open>closestMultiple\<close> and \<^verbatim>\<open>resizeInput\<close>\<close>

definition MAX_OUTPUT_SIZE :: jsnum where
  "MAX_OUTPUT_SIZE = Fin 1048576"

definition closestMultiple :: "jsnum \<Rightarrow> jsnum \<Rightarrow> jsnum" where
  "closestMultiple num mult =
     (let numInt = num;
          floor_m = js_times (Math_floor (js_divide numInt mult)) mult;
          ceil_m = js_times (Math_ceil (js_divide numInt mult)) mult;
          closest = (if js_less (js_minus numInt floor_m) (js_minus ceil_m numInt)
                     then floor_m else ceil_m)
      in if Number_isNaN closest then Fin 0
         else if js_less_eq closest (Fin 0) then mult else closest)"

record Size =
  width :: jsnum
  height :: jsnum

text \<open>
  The two \<^verbatim>\<open>if\<close> blocks of the fixed-512 step return only when the area fits; \<open>fit512\<close>
  is that step, with \<open>None\<close> for falling through to the 1024 step.
\<close>

definition fit512 :: "jsnum \<Rightarrow> Size option" where
  "fit512 aspectRatio =
     (if js_greater aspectRatio (Fin 1) then
        (let height = Fin 512;
             width = closestMultiple (js_times height aspectRatio) (Fin 64)
         in if js_less_eq (js_times width height) MAX_OUTPUT_SIZE
            then Some \<lparr>width = width, height = height\<rparr> else None)
      else
        (let width = Fin 512;
             height = closestMultiple (js_divide width aspectRatio) (Fin 64)
         in if js_less_eq (js_times width height) MAX_OUTPUT_SIZE
            then Some \<lparr>width = width, height = height\<rparr> else None))"

definition fit1024 :: "jsnum \<Rightarrow> Size" where
  "fit1024 aspectRatio =
     (if js_greater aspectRatio (Fin 1) then
        (let width = Fin 1024;
             height = closestMultiple (js_divide width aspectRatio) (Fin 64)
         in \<lparr>width = width, height = height\<rparr>)
      else
        (let height = Fin 1024;
             width = closestMultiple (js_times height aspectRatio) (Fin 64)
         in \<lparr>width = width, height = height\<rparr>))"

definition asIs :: "Size \<Rightarrow> bool" where
  "asIs sz =
     (js_strict_eq (js_rem (width sz) (Fin 64)) (Fin 0)
      \<and> js_strict_eq (js_rem (height sz) (Fin 64)) (Fin 0)
      \<and> js_less_eq (js_times (width sz) (height sz)) MAX_OUTPUT_SIZE)"

definition resizeInput :: "Size \<Rightarrow> Size" where
  "resizeInput sz =
     (if asIs sz then \<lparr>width = width sz, height = height sz\<rparr>
      else
        (let aspectRatio = js_divide (width sz) (height sz)
         in case fit512 aspectRatio of
              Some r \<Rightarrow> r
            | None \<Rightarrow> fit1024 aspectRatio))"

text \<open>Both dimensions are strictly positive multiples of 64 and the area is at most 1048576.\<close>

definition posValid :: "Size \<Rightarrow> bool" where
  "posValid s =
     (\<exists>m n::int. s = \<lparr>width = Fin (of_int (64 * m)), height = Fin (of_int (64 * n))\<rparr>
        \<and> 1 \<le> m \<and> 1 \<le> n \<and> m * n \<le> 256)"

text \<open>
  Two shapes of intermediate values in \<^verbatim>\<open>closestMultiple\<close>: a number that is not NaN and,
  when finite, is an integer; and one that, when finite, is an integer multiple of 64.
\<close>

definition integral :: "jsnum \<Rightarrow> bool" where
  "integral z = (\<not> Number_isNaN z \<and> (\<forall>r. z = Fin r \<longrightarrow> (\<exists>k::int. r = of_int k)))"

definition multiple64 :: "jsnum \<Rightarrow> bool" where
  "multiple64 z = (\<not> Number_isNaN z \<and> (\<forall>r. z = Fin r \<longrightarrow> (\<exists>k::int. r = 64 * of_int k)))"

section \<open>Strings\<close>

text \<open>
  A JavaScript string is a sequence of UTF-16 code units, here natural numbers; \<open>str\<close>
  turns a literal into one.
\<close>

type_synonym jsstring = "nat list"

definition str :: "string \<Rightarrow> jsstring" where
  "str s = map of_char s"

text \<open>\<^verbatim>\<open>s.startsWith(p)\<close>\<close>

definition startsWith :: "jsstring \<Rightarrow> jsstring \<Rightarrow> bool" where
  "startsWith s p = (take (length p) s = p)"

text \<open>
  \<^verbatim>\<open>s.slice(start, end)\<close>: a negative index counts from the end, and both indices are
  clamped to the string.
\<close>

definition js_slice :: "jsstring \<Rightarrow> int \<Rightarrow> int \<Rightarrow> jsstring" where
  "js_slice s start stop =
     (let len = int (length s);
          from = (if start < 0 then max (len + start) 0 else min start len);
          to = (if stop < 0 then max (len + stop) 0 else min stop len)
      in take (nat (to - from)) (drop (nat from) s))"

text \<open>\<^verbatim>\<open>xs.includes(v)\<close> on an array of strings, \<open>None\<close> being \<^verbatim>\<open>undefined\<close>.\<close>

definition Array_includes :: "jsstring list \<Rightarrow> jsstring option \<Rightarrow> bool" where
  "Array_includes xs v = (case v of None \<Rightarrow> False | Some s \<Rightarrow> s \<in> set xs)"

subsection \<open>The pattern \<^verbatim>\<open>/^data:(image\/\w+);base64,(.*)$/\<close>\<close>

text \<open>\<^verbatim>\<open>\w\<close> is a letter, a digit or the underscore; \<^verbatim>\<open>.\<close> is any code unit but a line
  terminator (LF, CR, U+2028, U+2029).\<close>

definition isWordChar :: "nat \<Rightarrow> bool" where
  "isWordChar c = ((48 \<le> c \<and> c \<le> 57) \<or> (65 \<le> c \<and> c \<le> 90) \<or> c = 95 \<or> (97 \<le> c \<and> c \<le> 122))"

definition isLineTerminator :: "nat \<Rightarrow> bool" where
  "isLineTerminator c = (c = 10 \<or> c = 13 \<or> c = 8232 \<or> c = 8233)"

fun stripPrefix :: "jsstring \<Rightarrow> jsstring \<Rightarrow> jsstring option" where
  "stripPrefix [] s = Some s"
| "stripPrefix (p # ps) [] = None"
| "stripPrefix (p # ps) (c # cs) = (if p = c then stripPrefix ps cs else None)"

text \<open>
  \<^verbatim>\<open>url.match(...)\<close>: \<open>None\<close> is \<^verbatim>\<open>null\<close>, otherwise the two groups. The greedy \<^verbatim>\<open>\w+\<close>
  takes the longest run of word characters: the \<^verbatim>\<open>;\<close> that has to follow is none.
\<close>

definition match_data :: "jsstring \<Rightarrow> (jsstring \<times> jsstring) option" where
  "match_data url =
     (case stripPrefix (str ''data:image/'') url of
        None \<Rightarrow> None
      | Some r \<Rightarrow>
          (let w = takeWhile isWordChar r; rest = dropWhile isWordChar r
           in if w = [] then None
              else (case stripPrefix (str '';base64,'') rest of
                      None \<Rightarrow> None
                    | Some payload \<Rightarrow>
                        if list_ex isLineTerminator payload then None
                        else Some (str ''image/'' @ w, payload))))"

section \<open>\<^verbatim>\<open>download\<close>\<close>

definition MAX_CONTENT_SIZE :: jsnum where
  "MAX_CONTENT_SIZE = Fin 10485760"

definition ALLOWED_TYPES :: "jsstring list" where
  "ALLOWED_TYPES = [str ''image/jpeg'', str ''image/png'']"

text \<open>
  What \<^verbatim>\<open>download\<close> takes from outside the repository: the two requests of \<^verbatim>\<open>ctx.http\<close>,
  each failing with a transport error \<open>'e\<close> or returning its result (for \<^verbatim>\<open>head\<close> the
  response headers, a dictionary); the conversion of a string to a number that unary
  \<^verbatim>\<open>+\<close> applies; and \<^verbatim>\<open>atob\<close>, with \<open>None\<close> where it throws on a malformed payload.
\<close>

record ('h, 'e) platform =
  http_head :: "jsstring \<Rightarrow> 'h \<Rightarrow> 'e + (string \<rightharpoonup> jsstring)"
  http_get :: "jsstring \<Rightarrow> 'h \<Rightarrow> 'e + nat list"
  toNumber :: "jsstring \<Rightarrow> jsnum"
  atob :: "jsstring \<rightharpoonup> jsstring"

text \<open>Unary \<^verbatim>\<open>+\<close> on a header value: \<^verbatim>\<open>undefined\<close> converts to NaN.\<close>

definition unaryPlus :: "('h, 'e) platform \<Rightarrow> jsstring option \<Rightarrow> jsnum" where
  "unaryPlus P v = (case v of None \<Rightarrow> NaN | Some s \<Rightarrow> toNumber P s)"

text \<open>
  The errors of \<^verbatim>\<open>download\<close>: \<^verbatim>\<open>new Error(message)\<close>; the \<^verbatim>\<open>TypeError\<close> of destructuring
  \<^verbatim>\<open>null\<close>; the error of \<^verbatim>\<open>atob\<close>; a rejected request.
\<close>

datatype 'e error = Error string | TypeError | InvalidCharacterError | Rejected 'e

datatype request = HEAD jsstring | GET jsstring

text \<open>The result of \<^verbatim>\<open>download\<close>, with the requests it has issued, in order.\<close>

definition download ::
  "('h, 'e) platform \<Rightarrow> jsstring \<Rightarrow> 'h \<Rightarrow> ('e error + nat list) \<times> request list" where
  "download P url headers =
     (if startsWith url (str ''data:'') then
        (case match_data url of
           None \<Rightarrow> (Inl TypeError, [])
         | Some (type, base64) \<Rightarrow>
             if \<not> Array_includes ALLOWED_TYPES (Some type)
             then (Inl (Error ''unsupported image type''), [])
             else (case atob P base64 of
                     None \<Rightarrow> (Inl InvalidCharacterError, [])
                   | Some binary \<Rightarrow> (Inr (map (\<lambda>c. c mod 256) binary), [])))
      else
        (case http_head P url headers of
           Inl e \<Rightarrow> (Inl (Rejected e), [HEAD url])
         | Inr head \<Rightarrow>
             if js_greater (unaryPlus P (head ''content-length'')) MAX_CONTENT_SIZE
             then (Inl (Error ''file too large''), [HEAD url])
             else if Array_includes ALLOWED_TYPES (head ''content-type'')
             then (Inl (Error ''unsupported file type''), [HEAD url])
             else (case http_get P url headers of
                     Inl e \<Rightarrow> (Inl (Rejected e), [HEAD url, GET url])
                   | Inr body \<Rightarrow> (Inr body, [HEAD url, GET url]))))"

text \<open>
  A platform for the examples: the metadata request of every URL reports the content
  length and the content type given, the GET request returns four bytes, and the
  conversion knows the two lengths that the examples use.
\<close>

definition examplePlatform :: "jsstring \<Rightarrow> jsstring \<Rightarrow> (unit, unit) platform" where
  "examplePlatform len type =
     \<lparr>http_head = (\<lambda>url h. Inr [''content-length'' \<mapsto> len, ''content-type'' \<mapsto> type]),
      http_get = (\<lambda>url h. Inr [137, 80, 78, 71]),
      toNumber = (\<lambda>s. if s = str ''20000000'' then Fin 20000000
                       else if s = str ''1024'' then Fin 1024 else NaN),
      atob = (\<lambda>s. None)\<rparr>"

section \<open>\<^verbatim>\<open>calcAccessKey\<close>\<close>

text \<open>
  What \<^verbatim>\<open>calcAccessKey\<close> takes from libsodium and from Node: whether the promise \<^verbatim>\<open>ready\<close>
  resolves, the two primitives (\<open>None\<close> where the call throws) with the two constants,
  and the bytes of a string (\<^verbatim>\<open>Buffer.from\<close>).
\<close>

record sodium =
  ready :: bool
  crypto_pwhash ::
    "nat \<Rightarrow> nat list \<Rightarrow> nat list \<Rightarrow> nat \<Rightarrow> nat \<Rightarrow> nat \<Rightarrow> string \<Rightarrow> jsstring option"
  crypto_generichash :: "nat \<Rightarrow> jsstring \<Rightarrow> nat list option"
  crypto_pwhash_SALTBYTES :: nat
  crypto_pwhash_ALG_ARGON2ID13 :: nat
  Buffer_from :: "jsstring \<Rightarrow> nat list"

definition calcAccessKey :: "sodium \<Rightarrow> jsstring \<Rightarrow> jsstring \<Rightarrow> jsstring option" where
  "calcAccessKey L email password =
     (if \<not> ready L then None
      else
        (case crypto_generichash L (crypto_pwhash_SALTBYTES L)
                (js_slice password 0 6 @ email @ str ''novelai_data_access_key'') of
           None \<Rightarrow> None
         | Some salt \<Rightarrow>
             (case crypto_pwhash L 64 (Buffer_from L password) salt 2 2000000
                     (crypto_pwhash_ALG_ARGON2ID13 L) ''base64'' of
                None \<Rightarrow> None
              | Some key \<Rightarrow> Some (js_slice key 0 64))))"

text \<open>
  The derivation as the specification words it: the domain string is the first six
  characters of the password (all of it when it is shorter), the email and the fixed
  suffix; its hash is the salt; the access key is the first 64 characters of the encoded
  output of the password hash.
\<close>

definition accessKeyDomain_spec :: "jsstring \<Rightarrow> jsstring \<Rightarrow> jsstring" where
  "accessKeyDomain_spec email password =
     (if length password < 6 then password else take 6 password)
       @ email @ str ''novelai_data_access_key''"

definition deriveAccessKey_spec :: "sodium \<Rightarrow> jsstring \<Rightarrow> jsstring \<Rightarrow> jsstring option" where
  "deriveAccessKey_spec L email password =
     (if ready L then
        Option.bind
          (crypto_generichash L (crypto_pwhash_SALTBYTES L) (accessKeyDomain_spec email password))
          (\<lambda>salt. map_option (take 64)
             (crypto_pwhash L 64 (Buffer_from L password) salt 2 2000000
                (crypto_pwhash_ALG_ARGON2ID13 L) ''base64''))
      else None)"

text \<open>A library for the examples: a hash and a password hash that only have the lengths.\<close>

definition exampleSodium :: sodium where
  "exampleSodium =
     \<lparr>ready = True,
      crypto_pwhash = (\<lambda>outlen pw salt ops mem alg fmt. Some (replicate 86 65)),
      crypto_generichash = (\<lambda>n msg. Some (replicate n 0)),
      crypto_pwhash_SALTBYTES = 16,
      crypto_pwhash_ALG_ARGON2ID13 = 2,
      Buffer_from = (\<lambda>s. s)\<rparr>"

section \<open>Rounding: exponent, monotonicity, exact cases\<close>

lemma powi_nat: "0 \<le> k \<Longrightarrow> (2::rat) powi k = 2 ^ nat k"
  by (simp add: power_int_def)

lemma powi_neg: "0 \<le> k \<Longrightarrow> (2::rat) powi (- k) = 1 / 2 ^ nat k"
  by (simp add: power_int_minus_divide powi_nat)

lemma powi_pos [simp]: "0 < (2::rat) powi k"
  by simp

lemma powi_Suc: "(2::rat) powi (k + 1) = 2 * 2 powi k"
  by (simp add: power_int_add)

lemma powi_mono: "j \<le> k \<Longrightarrow> (2::rat) powi j \<le> 2 powi k"
  by (rule power_int_increasing) simp_all

lemma powi_less_cancel: "(2::rat) powi j < 2 powi k \<Longrightarrow> j < k"
  using powi_mono [of k j] by (cases "j < k") auto

lemma expo_bounds:
  assumes "0 < x"
  shows "2 powi expo x \<le> x" and "x < 2 powi (expo x + 1)"
proof -
  have "2 powi expo x \<le> x \<and> x < 2 powi (expo x + 1)"
  proof (cases "1 \<le> x")
    case True
    define n where "n = \<lfloor>x\<rfloor>"
    have n: "1 \<le> n" using True by (simp add: n_def)
    then have b: "2 ^ nat (bitlen n - 1) \<le> n" "n < 2 ^ nat (bitlen n)"
      using bitlen_bounds [of n] by simp_all
    have b1: "1 \<le> bitlen n" using n by (simp add: bitlen_alt_def)
    have e: "expo x = bitlen n - 1" using True by (simp add: expo_def n_def)
    have "rat_of_int (2 ^ nat (bitlen n - 1)) \<le> of_int n" using b(1) by (simp only: of_int_le_iff)
    also have "\<dots> \<le> x" by (simp add: n_def)
    finally have lo: "2 powi expo x \<le> x" using b1 by (simp add: e powi_nat)
    have "n + 1 \<le> 2 ^ nat (bitlen n)" using b(2) by simp
    then have "rat_of_int (n + 1) \<le> of_int (2 ^ nat (bitlen n))" by (simp only: of_int_le_iff)
    moreover have "x < of_int (n + 1)" unfolding n_def by linarith
    ultimately have "x < 2 ^ nat (bitlen n)" by simp
    then have hi: "x < 2 powi (expo x + 1)" using b1 by (simp add: e powi_nat)
    from lo hi show ?thesis ..
  next
    case False
    define y where "y = 1 / x"
    have y: "1 < y" using False assms by (simp add: y_def)
    define n where "n = \<lceil>y\<rceil> - 1"
    have n: "1 \<le> n" using y by (simp add: n_def less_ceiling_iff)
    then have b: "2 ^ nat (bitlen n - 1) \<le> n" "n < 2 ^ nat (bitlen n)"
      using bitlen_bounds [of n] by simp_all
    have b1: "1 \<le> bitlen n" using n by (simp add: bitlen_alt_def)
    have e: "expo x = - bitlen n" using False by (simp add: expo_def n_def y_def)
    have "n + 1 \<le> 2 ^ nat (bitlen n)" using b(2) by simp
    then have "rat_of_int (n + 1) \<le> of_int (2 ^ nat (bitlen n))" by (simp only: of_int_le_iff)
    moreover have "y \<le> of_int (n + 1)" unfolding n_def by linarith
    ultimately have "y \<le> 2 ^ nat (bitlen n)" by simp
    then have "1 / 2 ^ nat (bitlen n) \<le> x"
      using assms by (simp add: y_def field_simps)
    then have lo: "2 powi expo x \<le> x" using b1 by (simp add: e powi_neg)
    have "rat_of_int (2 ^ nat (bitlen n - 1)) \<le> of_int n" using b(1) by (simp only: of_int_le_iff)
    then have "(2::rat) ^ nat (bitlen n - 1) \<le> of_int n" by simp
    moreover have "of_int n < y" unfolding n_def by linarith
    ultimately have "2 ^ nat (bitlen n - 1) < y" by linarith
    then have "x < 1 / 2 ^ nat (bitlen n - 1)"
      using assms by (simp add: y_def field_simps)
    moreover have "expo x + 1 = - (bitlen n - 1)" by (simp add: e)
    ultimately have hi: "x < 2 powi (expo x + 1)" using b1 powi_neg [of "bitlen n - 1"] by simp
    from lo hi show ?thesis ..
  qed
  then show "2 powi expo x \<le> x" and "x < 2 powi (expo x + 1)" by simp_all
qed

lemma expo_less: "0 < x \<Longrightarrow> x < 2 powi k \<Longrightarrow> expo x < k"
  using expo_bounds(1) [of x] powi_less_cancel [of "expo x" k] by simp

lemma expo_ge: "0 < x \<Longrightarrow> 2 powi k \<le> x \<Longrightarrow> k \<le> expo x"
  using expo_bounds(2) [of x] powi_less_cancel [of k "expo x + 1"] by simp

lemma expo_mono: "0 < x \<Longrightarrow> x \<le> y \<Longrightarrow> expo x \<le> expo y"
  using expo_bounds(1) [of x] expo_ge [of y "expo x"] by simp

lemma rhe_cases: "round_half_even q = \<lfloor>q\<rfloor> \<or> round_half_even q = \<lfloor>q\<rfloor> + 1"
  by (simp add: round_half_even_def Let_def)

lemma rhe_of_int: "round_half_even (of_int k) = k"
  by (simp add: round_half_even_def)

lemma rhe_mono:
  assumes "q \<le> q'"
  shows "round_half_even q \<le> round_half_even q'"
proof (cases "\<lfloor>q\<rfloor> = \<lfloor>q'\<rfloor>")
  case True
  then show ?thesis using assms by (auto simp: round_half_even_def Let_def)
next
  case False
  moreover have "\<lfloor>q\<rfloor> \<le> \<lfloor>q'\<rfloor>" using assms by (rule floor_mono)
  ultimately have "\<lfloor>q\<rfloor> + 1 \<le> \<lfloor>q'\<rfloor>" by simp
  then show ?thesis using rhe_cases [of q] rhe_cases [of q'] by auto
qed

lemma rhe_le: "q \<le> of_int k \<Longrightarrow> round_half_even q \<le> k"
  using rhe_mono [of q "of_int k"] by (simp add: rhe_of_int)

lemma rhe_ge: "of_int k \<le> q \<Longrightarrow> k \<le> round_half_even q"
  using rhe_mono [of "of_int k" q] by (simp add: rhe_of_int)

lemma ulp_exp_alt: "ulp_exp x + 52 = max (expo x) (- 1022)"
  by (simp add: ulp_exp_def)

lemma round_pos_nonneg: "0 < x \<Longrightarrow> 0 \<le> round_pos x"
proof -
  assume "0 < x"
  then have "of_int 0 \<le> x / 2 powi ulp_exp x" by simp
  then have "0 \<le> round_half_even (x / 2 powi ulp_exp x)" by (rule rhe_ge)
  then show ?thesis by (simp add: round_pos_def)
qed

lemma round_pos_upper:
  assumes "0 < x"
  shows "round_pos x \<le> 2 powi (ulp_exp x + 53)"
proof -
  let ?u = "ulp_exp x"
  have "expo x + 1 \<le> ?u + 53" by (simp add: ulp_exp_def)
  then have "2 powi (expo x + 1) \<le> (2::rat) powi (?u + 53)" by (rule powi_mono)
  with expo_bounds(2) [OF assms] have "x < 2 powi (?u + 53)" by simp
  also have "\<dots> = 2 powi ?u * 2 ^ 53" by (simp add: power_int_add)
  finally have "x / 2 powi ?u < 2 ^ 53" by (simp add: field_simps)
  then have "x / 2 powi ?u \<le> of_int (2 ^ 53)" by simp
  then have "round_half_even (x / 2 powi ?u) \<le> 2 ^ 53" by (rule rhe_le)
  then have "rat_of_int (round_half_even (x / 2 powi ?u)) \<le> of_int (2 ^ 53)"
    by (simp only: of_int_le_iff)
  then have "round_pos x \<le> 2 ^ 53 * 2 powi ?u" by (simp add: round_pos_def)
  also have "\<dots> = 2 powi (?u + 53)" by (simp add: power_int_add)
  finally show ?thesis .
qed

lemma round_pos_lower:
  assumes "0 < x" and "- 1022 \<le> expo x"
  shows "2 powi expo x \<le> round_pos x"
proof -
  let ?u = "ulp_exp x"
  have u: "?u + 52 = expo x" using assms(2) by (simp add: ulp_exp_def)
  have "2 powi ?u * 2 ^ 52 = (2::rat) powi (?u + 52)" by (simp add: power_int_add)
  also have "\<dots> \<le> x" using expo_bounds(1) [OF assms(1)] by (simp only: u)
  finally have "of_int (2 ^ 52) \<le> x / 2 powi ?u" by (simp add: field_simps)
  then have "2 ^ 52 \<le> round_half_even (x / 2 powi ?u)" by (rule rhe_ge)
  then have "rat_of_int (2 ^ 52) \<le> of_int (round_half_even (x / 2 powi ?u))"
    by (simp only: of_int_le_iff)
  then have "2 ^ 52 * 2 powi ?u \<le> round_pos x" by (simp add: round_pos_def)
  moreover have "2 ^ 52 * 2 powi ?u = (2::rat) powi (?u + 52)" by (simp add: power_int_add)
  ultimately show ?thesis by (simp only: u)
qed

lemma round_pos_mono:
  assumes "0 < x" and "x \<le> y"
  shows "round_pos x \<le> round_pos y"
proof (cases "ulp_exp x = ulp_exp y")
  case True
  have "x / 2 powi ulp_exp y \<le> y / 2 powi ulp_exp y"
    using assms(2) by (simp add: divide_right_mono)
  then have "round_half_even (x / 2 powi ulp_exp y) \<le> round_half_even (y / 2 powi ulp_exp y)"
    by (rule rhe_mono)
  then have "rat_of_int (round_half_even (x / 2 powi ulp_exp y))
      \<le> of_int (round_half_even (y / 2 powi ulp_exp y))" by (simp only: of_int_le_iff)
  then show ?thesis by (simp add: round_pos_def True)
next
  case False
  have y: "0 < y" using assms by simp
  have "expo x \<le> expo y" using assms by (rule expo_mono)
  with False have lt: "ulp_exp x < ulp_exp y" and n: "- 1022 \<le> expo y" and e: "ulp_exp y + 52 = expo y"
    by (auto simp: ulp_exp_def)
  have "round_pos x \<le> 2 powi (ulp_exp x + 53)" using assms(1) by (rule round_pos_upper)
  also have "\<dots> \<le> 2 powi expo y" using lt e by (intro powi_mono) simp
  also have "\<dots> \<le> round_pos y" using y n by (rule round_pos_lower)
  finally show ?thesis .
qed

lemma round_double_mono:
  assumes "x \<le> y"
  shows "round_double x \<le> round_double y"
proof -
  consider "0 < x" | "x = 0" | "x < 0" "y < 0" | "x < 0" "0 \<le> y" by linarith
  then show ?thesis
  proof cases
    case 1
    then show ?thesis using assms round_pos_mono [of x y] by (simp add: round_double_def)
  next
    case 2
    then show ?thesis using assms round_pos_nonneg [of y] by (auto simp: round_double_def)
  next
    case 3
    then show ?thesis using assms round_pos_mono [of "- y" "- x"] by (simp add: round_double_def)
  next
    case 4
    then show ?thesis
      using round_pos_nonneg [of "- x"] round_pos_nonneg [of y] by (auto simp: round_double_def)
  qed
qed

lemma powi_split: "u \<le> j \<Longrightarrow> (2::rat) powi j = 2 powi u * 2 ^ nat (j - u)"
proof -
  assume "u \<le> j"
  then have "(2::rat) powi (j - u) = 2 ^ nat (j - u)" by (simp add: powi_nat)
  moreover have "(2::rat) powi (u + (j - u)) = 2 powi u * 2 powi (j - u)"
    by (rule power_int_add) simp
  ultimately show ?thesis by simp
qed

lemma round_pos_exact:
  assumes "0 < m" and "m < 2 ^ 53" and "- 1074 \<le> j"
  shows "round_pos (of_int m * 2 powi j) = of_int m * 2 powi j"
proof -
  define x where "x = rat_of_int m * 2 powi j"
  define u where "u = ulp_exp x"
  have x: "0 < x" using assms(1) by (simp add: x_def)
  have "rat_of_int m < of_int (2 ^ 53)" using assms(2) by (simp only: of_int_less_iff)
  then have "x < 2 ^ 53 * 2 powi j" by (simp add: x_def)
  also have "\<dots> = 2 powi (53 + j)" by (simp add: power_int_add)
  finally have "expo x < 53 + j" using x by (intro expo_less)
  then have "u \<le> j" using assms(3) by (simp add: ulp_exp_def u_def)
  then have j: "(2::rat) powi j = 2 powi u * 2 ^ nat (j - u)" by (rule powi_split)
  have "x / 2 powi u = of_int (m * 2 ^ nat (j - u))"
    by (simp add: x_def j)
  then have "round_half_even (x / 2 powi u) = m * 2 ^ nat (j - u)"
    by (simp only: rhe_of_int)
  then have "round_pos x = of_int (m * 2 ^ nat (j - u)) * 2 powi u"
    by (simp add: round_pos_def u_def)
  also have "\<dots> = x" by (simp add: x_def j)
  finally show ?thesis by (simp only: x_def)
qed

lemma round_double_exact:
  assumes "\<bar>m\<bar> < 2 ^ 53" and "- 1074 \<le> j"
  shows "round_double (of_int m * 2 powi j) = of_int m * 2 powi j"
proof -
  consider "m = 0" | "0 < m" | "m < 0" by linarith
  then show ?thesis
  proof cases
    case 1 then show ?thesis by (simp add: round_double_def)
  next
    case 2
    then show ?thesis using assms round_pos_exact [of m j] by (simp add: round_double_def)
  next
    case 3
    then have "round_pos (of_int (- m) * 2 powi j) = of_int (- m) * 2 powi j"
      using assms by (intro round_pos_exact) simp_all
    moreover have "rat_of_int m * 2 powi j < 0" using 3 by (simp add: mult_less_0_iff)
    ultimately show ?thesis by (simp add: round_double_def)
  qed
qed

lemma round_double_sign:
  "0 \<le> x \<Longrightarrow> 0 \<le> round_double x" "x \<le> 0 \<Longrightarrow> round_double x \<le> 0"
  using round_pos_nonneg [of x] round_pos_nonneg [of "- x"] by (auto simp: round_double_def)

lemma round_double_64:
  "\<exists>k::int. round_double (64 * of_int n) = 64 * of_int k"
proof (cases "\<bar>n\<bar> < 2 ^ 53")
  case True
  then have "round_double (of_int n * 2 powi 6) = of_int n * 2 powi 6"
    by (intro round_double_exact) simp_all
  then have "round_double (64 * of_int n) = 64 * of_int n" by (simp add: mult.commute)
  then show ?thesis by blast
next
  case False
  have pos: "\<exists>k::int. round_pos (64 * of_int p) = 64 * of_int k" if p: "2 ^ 53 \<le> p" for p :: int
  proof -
    define x where "x = 64 * rat_of_int p"
    define u where "u = ulp_exp x"
    have "rat_of_int (2 ^ 53) \<le> of_int p" using p by (simp only: of_int_le_iff)
    then have "(2::rat) powi 59 \<le> x" by (simp add: x_def)
    moreover have x: "0 < x" using p by (simp add: x_def)
    ultimately have "59 \<le> expo x" by (intro expo_ge)
    then have "6 \<le> u" by (simp add: ulp_exp_def u_def)
    then have "(2::rat) powi u = 2 powi 6 * 2 ^ nat (u - 6)" by (rule powi_split)
    then have "round_pos x = 64 * of_int (round_half_even (x / 2 powi u) * 2 ^ nat (u - 6))"
      by (simp add: round_pos_def u_def)
    then show ?thesis unfolding x_def by blast
  qed
  consider "2 ^ 53 \<le> n" | "2 ^ 53 \<le> - n" using False by linarith
  then show ?thesis
  proof cases
    case 1
    with pos [of n] show ?thesis by (auto simp: round_double_def)
  next
    case 2
    with pos [of "- n"] obtain k :: int where "round_pos (64 * of_int (- n)) = 64 * of_int k" by blast
    with 2 have "round_double (64 * of_int n) = 64 * of_int (- k)"
      by (simp add: round_double_def)
    then show ?thesis by blast
  qed
qed

lemma OVERFLOW_eq: "OVERFLOW = 2 ^ 1024"
  by (simp add: OVERFLOW_def)

lemma OVERFLOW_pos: "0 < OVERFLOW"
  by (simp add: OVERFLOW_def)

lemma round_of_cases:
  "round_of r s = zero_of s \<and> r = 0
   \<or> round_of r s = inf_of (r < 0) \<and> r \<noteq> 0
   \<or> round_of r s = zero_of (r < 0) \<and> r \<noteq> 0
   \<or> round_of r s = Fin (round_double r) \<and> r \<noteq> 0 \<and> round_double r \<noteq> 0
       \<and> \<bar>round_double r\<bar> < OVERFLOW"
  by (auto simp: round_of_def Let_def)

lemma round_of_not_NaN: "\<not> Number_isNaN (round_of r s)"
  by (auto simp: round_of_def Let_def zero_of_def inf_of_def)

lemma round_of_le:
  assumes "isDouble c" and "r \<le> c"
  shows "js_less_eq (round_of r s) (Fin c)"
proof (cases "r = 0")
  case True
  then show ?thesis using assms(2)
    by (simp add: round_of_def zero_of_def js_less_eq_def js_less_def)
next
  case False
  define y where "y = round_double r"
  have "y \<le> round_double c" unfolding y_def using assms(2) by (rule round_double_mono)
  moreover have rc: "round_double c = c" and "\<bar>c\<bar> < OVERFLOW"
    using assms(1) by (simp_all add: isDouble_def)
  ultimately have yc: "y \<le> c" and c: "c < OVERFLOW" by linarith+
  have neg: "r < 0" if "y < 0" using that round_double_sign(1) [of r] by (cases "r < 0") (auto simp: y_def)
  show ?thesis
  proof (cases "OVERFLOW \<le> \<bar>y\<bar>")
    case True
    with yc c have "y < 0" by linarith
    then have "r < 0" by (rule neg)
    with True False show ?thesis
      by (simp add: round_of_def Let_def y_def [symmetric] inf_of_def js_less_eq_def js_less_def)
  next
    case no: False
    then show ?thesis using False yc
      by (simp add: round_of_def Let_def y_def [symmetric] zero_of_def js_less_eq_def js_less_def)
  qed
qed

lemma round_of_ge:
  assumes "isDouble c" and "c \<le> r"
  shows "js_less_eq (Fin c) (round_of r s)"
proof (cases "r = 0")
  case True
  then show ?thesis using assms(2)
    by (simp add: round_of_def zero_of_def js_less_eq_def js_less_def)
next
  case False
  define y where "y = round_double r"
  have "round_double c \<le> y" unfolding y_def using assms(2) by (rule round_double_mono)
  moreover have rc: "round_double c = c" and "\<bar>c\<bar> < OVERFLOW"
    using assms(1) by (simp_all add: isDouble_def)
  ultimately have yc: "c \<le> y" and c: "- OVERFLOW < c" by linarith+
  have pos: "0 < r" if "0 < y" using that round_double_sign(2) [of r] by (cases "0 < r") (auto simp: y_def)
  show ?thesis
  proof (cases "OVERFLOW \<le> \<bar>y\<bar>")
    case True
    with yc c have "0 < y" using OVERFLOW_pos by linarith
    then have "0 < r" by (rule pos)
    with True False show ?thesis
      by (simp add: round_of_def Let_def y_def [symmetric] inf_of_def js_less_eq_def js_less_def)
  next
    case no: False
    then show ?thesis using False yc
      by (simp add: round_of_def Let_def y_def [symmetric] zero_of_def js_less_eq_def js_less_def)
  qed
qed

lemma round_of_exact: "isDouble r \<Longrightarrow> r \<noteq> 0 \<Longrightarrow> round_of r s = Fin r"
  by (simp add: round_of_def isDouble_def Let_def)

lemma isDouble_consts:
  "isDouble 16" "isDouble 1024" "isDouble 1048576" "isDouble 1048577" "isDouble 32" "isDouble 64"
  by code_simp+

lemma js_less_eq_trans_Fin:
  "js_less_eq x (Fin a) \<Longrightarrow> a \<le> b \<Longrightarrow> js_less_eq x (Fin b)"
  by (cases x) (auto simp: js_less_eq_def js_less_def)

lemma OVERFLOW_gt: "2 ^ 60 < OVERFLOW"
  by (simp add: OVERFLOW_def)

lemma isDouble_exact:
  assumes "\<bar>m\<bar> < 2 ^ 53" and "- 1074 \<le> j" and "\<bar>of_int m * 2 powi j\<bar> < (2::rat) ^ 60"
  shows "isDouble (of_int m * 2 powi j)"
  using round_double_exact [OF assms(1,2)] assms(3) OVERFLOW_gt by (simp add: isDouble_def)

section \<open>The results of \<^verbatim>\<open>closestMultiple\<close>\<close>

lemma js_divide_64_not_NaN: "\<not> Number_isNaN x \<Longrightarrow> \<not> Number_isNaN (js_divide x (Fin 64))"
  by (cases x) (simp_all add: js_divide_def round_of_not_NaN inf_of_def zero_of_def)

lemma Math_floor_integral: "\<not> Number_isNaN q \<Longrightarrow> integral (Math_floor q)"
  by (cases q) (auto simp: integral_def)

lemma Math_ceil_integral: "\<not> Number_isNaN q \<Longrightarrow> integral (Math_ceil q)"
  by (cases q) (auto simp: integral_def exact_of_def zero_of_def)

lemma js_times_64_multiple:
  assumes "integral z"
  shows "multiple64 (js_times z (Fin 64))"
proof (cases z)
  case (Fin r)
  with assms obtain k :: int where r: "r = of_int k" by (auto simp: integral_def)
  obtain j :: int where j: "round_double (64 * of_int k) = 64 * of_int j"
    using round_double_64 [of k] by blast
  have t: "js_times z (Fin 64) = round_of (64 * of_int k) (k < 0)"
    by (simp add: Fin r js_times_def mult.commute)
  have z: "(0::rat) = 64 * of_int 0" by simp
  show ?thesis
    using round_of_cases [of "64 * of_int k" "k < 0"] j z
    unfolding t multiple64_def zero_of_def inf_of_def
    by (auto split: if_splits)
qed (use assms in \<open>simp_all add: integral_def multiple64_def js_times_def inf_of_def zero_of_def
      round_of_def\<close>)

lemma closestMultiple_unfold:
  "closestMultiple x (Fin 64) =
     (if Number_isNaN
           (if js_less (js_minus x (js_times (Math_floor (js_divide x (Fin 64))) (Fin 64)))
                 (js_minus (js_times (Math_ceil (js_divide x (Fin 64))) (Fin 64)) x)
            then js_times (Math_floor (js_divide x (Fin 64))) (Fin 64)
            else js_times (Math_ceil (js_divide x (Fin 64))) (Fin 64))
      then Fin 0
      else if js_less_eq
           (if js_less (js_minus x (js_times (Math_floor (js_divide x (Fin 64))) (Fin 64)))
                 (js_minus (js_times (Math_ceil (js_divide x (Fin 64))) (Fin 64)) x)
            then js_times (Math_floor (js_divide x (Fin 64))) (Fin 64)
            else js_times (Math_ceil (js_divide x (Fin 64))) (Fin 64)) (Fin 0)
      then Fin 64
      else (if js_less (js_minus x (js_times (Math_floor (js_divide x (Fin 64))) (Fin 64)))
                 (js_minus (js_times (Math_ceil (js_divide x (Fin 64))) (Fin 64)) x)
            then js_times (Math_floor (js_divide x (Fin 64))) (Fin 64)
            else js_times (Math_ceil (js_divide x (Fin 64))) (Fin 64)))"
  unfolding closestMultiple_def Let_def by (rule refl)

lemma closestMultiple_choice:
  obtains cl where
    "cl = js_times (Math_floor (js_divide x (Fin 64))) (Fin 64)
       \<or> cl = js_times (Math_ceil (js_divide x (Fin 64))) (Fin 64)"
    "closestMultiple x (Fin 64) =
       (if Number_isNaN cl then Fin 0 else if js_less_eq cl (Fin 0) then Fin 64 else cl)"
proof (cases "js_less (js_minus x (js_times (Math_floor (js_divide x (Fin 64))) (Fin 64)))
                 (js_minus (js_times (Math_ceil (js_divide x (Fin 64))) (Fin 64)) x)")
  case True
  show thesis
    by (rule that [of "js_times (Math_floor (js_divide x (Fin 64))) (Fin 64)"])
      (simp_all add: closestMultiple_unfold True)
next
  case False
  show thesis
    by (rule that [of "js_times (Math_ceil (js_divide x (Fin 64))) (Fin 64)"])
      (simp_all add: closestMultiple_unfold False)
qed

lemma closestMultiple_shape:
  assumes "\<not> Number_isNaN x"
  shows "closestMultiple x (Fin 64) = PInf
    \<or> (\<exists>k::int. 1 \<le> k \<and> closestMultiple x (Fin 64) = Fin (64 * of_int k))"
proof -
  obtain cl where cl: "cl = js_times (Math_floor (js_divide x (Fin 64))) (Fin 64)
       \<or> cl = js_times (Math_ceil (js_divide x (Fin 64))) (Fin 64)"
    and cm: "closestMultiple x (Fin 64) =
       (if Number_isNaN cl then Fin 0 else if js_less_eq cl (Fin 0) then Fin 64 else cl)"
    by (rule closestMultiple_choice)
  have q: "\<not> Number_isNaN (js_divide x (Fin 64))" using assms by (rule js_divide_64_not_NaN)
  have m: "multiple64 cl"
    using cl js_times_64_multiple [OF Math_floor_integral [OF q]]
      js_times_64_multiple [OF Math_ceil_integral [OF q]] by auto
  have one: "Fin 64 = Fin (64 * of_int 1)" by simp
  show ?thesis
  proof (cases cl)
    case (Fin r)
    with m obtain k :: int where k: "r = 64 * of_int k" by (auto simp: multiple64_def)
    show ?thesis
    proof (cases "r \<le> 0")
      case True
      then have "closestMultiple x (Fin 64) = Fin (64 * of_int 1)"
        by (simp add: cm Fin js_less_eq_def js_less_def)
      then show ?thesis by (intro disjI2 exI [of _ 1]) simp
    next
      case False
      then have "0 < rat_of_int k" using k by simp
      then have "1 \<le> k" by simp
      moreover have "closestMultiple x (Fin 64) = Fin (64 * of_int k)"
        using False by (simp add: cm Fin k js_less_eq_def js_less_def)
      ultimately show ?thesis by blast
    qed
  next
    case NaN
    then show ?thesis using m by (simp add: multiple64_def)
  next
    case PInf
    then show ?thesis by (simp add: cm js_less_eq_def js_less_def)
  next
    case NInf
    then have "closestMultiple x (Fin 64) = Fin (64 * of_int 1)"
      by (simp add: cm js_less_eq_def js_less_def)
    then show ?thesis by (intro disjI2 exI [of _ 1]) simp
  next
    case NZero
    then have "closestMultiple x (Fin 64) = Fin (64 * of_int 1)"
      by (simp add: cm js_less_eq_def js_less_def)
    then show ?thesis by (intro disjI2 exI [of _ 1]) simp
  qed
qed

lemma js_divide_64_le:
  assumes "js_less_eq x (Fin 1024)"
  shows "js_less_eq (js_divide x (Fin 64)) (Fin 16)"
proof (cases x)
  case (Fin r)
  with assms have r: "r \<le> 1024" by (simp add: js_less_eq_def js_less_def)
  have "js_divide x (Fin 64) = round_of (r / 64) (r < 0)"
    by (simp add: Fin js_divide_def)
  moreover have "r / 64 \<le> 16" using r by simp
  ultimately show ?thesis using round_of_le [OF isDouble_consts(1)] by simp
qed (use assms in \<open>simp_all add: js_divide_def js_less_eq_def js_less_def inf_of_def zero_of_def
      round_of_def\<close>)

lemma Math_floor_le: "js_less_eq q (Fin (of_int n)) \<Longrightarrow> js_less_eq (Math_floor q) (Fin (of_int n))"
proof (cases q)
  case (Fin r)
  assume "js_less_eq q (Fin (of_int n))"
  with Fin have "r \<le> of_int n" by (simp add: js_less_eq_def js_less_def)
  then have "\<lfloor>r\<rfloor> \<le> n" by (simp add: floor_le_iff)
  then show ?thesis by (simp add: Fin js_less_eq_def js_less_def)
qed simp_all

lemma Math_ceil_le: "js_less_eq q (Fin (of_int n)) \<Longrightarrow> js_less_eq (Math_ceil q) (Fin (of_int n))"
proof (cases q)
  case (Fin r)
  assume "js_less_eq q (Fin (of_int n))"
  with Fin have "r \<le> of_int n" by (simp add: js_less_eq_def js_less_def)
  then have "\<lceil>r\<rceil> \<le> n" by (simp add: ceiling_le_iff)
  then have "rat_of_int \<lceil>r\<rceil> \<le> of_int n" by (simp only: of_int_le_iff)
  then show ?thesis
    by (auto simp add: Fin exact_of_def zero_of_def js_less_eq_def js_less_def)
qed simp_all

lemma js_times_64_le:
  assumes "integral z" and "js_less_eq z (Fin 16)"
  shows "js_less_eq (js_times z (Fin 64)) (Fin 1024)"
proof (cases z)
  case (Fin r)
  with assms have r: "r \<le> 16" by (simp add: js_less_eq_def js_less_def)
  have "js_times z (Fin 64) = round_of (r * 64) (r < 0)" by (simp add: Fin js_times_def)
  moreover have "r * 64 \<le> 1024" using r by simp
  ultimately show ?thesis using round_of_le [OF isDouble_consts(2)] by simp
qed (use assms in \<open>simp_all add: js_times_def js_less_eq_def js_less_def inf_of_def zero_of_def
      round_of_def\<close>)

lemma closestMultiple_le:
  assumes "js_less_eq x (Fin 1024)"
  shows "\<exists>k::int. 1 \<le> k \<and> k \<le> 16 \<and> closestMultiple x (Fin 64) = Fin (64 * of_int k)"
proof -
  have x: "\<not> Number_isNaN x" using assms by (cases x) (simp_all add: js_less_eq_def)
  obtain cl where cl: "cl = js_times (Math_floor (js_divide x (Fin 64))) (Fin 64)
       \<or> cl = js_times (Math_ceil (js_divide x (Fin 64))) (Fin 64)"
    and cm: "closestMultiple x (Fin 64) =
       (if Number_isNaN cl then Fin 0 else if js_less_eq cl (Fin 0) then Fin 64 else cl)"
    by (rule closestMultiple_choice)
  have q: "\<not> Number_isNaN (js_divide x (Fin 64))" using x by (rule js_divide_64_not_NaN)
  have q16: "js_less_eq (js_divide x (Fin 64)) (Fin (of_int 16))"
    using js_divide_64_le [OF assms] by simp
  have "js_less_eq (js_times (Math_floor (js_divide x (Fin 64))) (Fin 64)) (Fin 1024)"
    using js_times_64_le [OF Math_floor_integral [OF q]] Math_floor_le [OF q16] by simp
  moreover have "js_less_eq (js_times (Math_ceil (js_divide x (Fin 64))) (Fin 64)) (Fin 1024)"
    using js_times_64_le [OF Math_ceil_integral [OF q]] Math_ceil_le [OF q16] by simp
  ultimately have le: "js_less_eq cl (Fin 1024)" using cl by auto
  have res: "js_less_eq (closestMultiple x (Fin 64)) (Fin 1024)"
    using le by (auto simp: cm js_less_eq_def js_less_def)
  from closestMultiple_shape [OF x] show ?thesis
  proof
    assume "closestMultiple x (Fin 64) = PInf"
    with res show ?thesis by (simp add: js_less_eq_def js_less_def)
  next
    assume "\<exists>k::int. 1 \<le> k \<and> closestMultiple x (Fin 64) = Fin (64 * of_int k)"
    then obtain k :: int where k: "1 \<le> k" "closestMultiple x (Fin 64) = Fin (64 * of_int k)"
      by blast
    with res have "64 * rat_of_int k \<le> 1024" by (simp add: js_less_eq_def js_less_def)
    then have "rat_of_int k \<le> of_int 16" by simp
    then have "k \<le> 16" by (simp only: of_int_le_iff)
    with k show ?thesis by blast
  qed
qed

lemma closestMultiple_NaN_eq: "closestMultiple NaN (Fin 64) = Fin 0"
  by code_simp

lemma tie_small:
  assumes "isDouble v" and "0 < v" and "\<lfloor>v / 64\<rfloor> \<noteq> \<lceil>v / 64\<rceil>"
  shows "v < 2 ^ 58"
proof (rule ccontr)
  assume "\<not> v < 2 ^ 58"
  then have "(2::rat) powi 58 \<le> v" by simp
  then have "58 \<le> expo v" using assms(2) by (intro expo_ge)
  then have "6 \<le> ulp_exp v" by (simp add: ulp_exp_def)
  then have p: "(2::rat) powi ulp_exp v = 2 powi 6 * 2 ^ nat (ulp_exp v - 6)" by (rule powi_split)
  have "v = round_pos v" using assms(1,2) by (simp add: isDouble_def round_double_def)
  then have "v = 64 * of_int (round_half_even (v / 2 powi ulp_exp v) * 2 ^ nat (ulp_exp v - 6))"
    unfolding round_pos_def by (subst (asm) (2) p) simp
  then have "v / 64 = of_int (round_half_even (v / 2 powi ulp_exp v) * 2 ^ nat (ulp_exp v - 6))"
    by simp
  then have "\<lfloor>v / 64\<rfloor> = \<lceil>v / 64\<rceil>" by (metis ceiling_of_int floor_of_int)
  with assms(3) show False by simp
qed

section \<open>The steps of \<^verbatim>\<open>resizeInput\<close>\<close>

lemma posValidI:
  "w = Fin (of_int (64 * m)) \<Longrightarrow> h = Fin (of_int (64 * n)) \<Longrightarrow> 1 \<le> m \<Longrightarrow> 1 \<le> n \<Longrightarrow> m * n \<le> 256
    \<Longrightarrow> posValid \<lparr>width = w, height = h\<rparr>"
  unfolding posValid_def by blast

lemma js_less_eq_sandwich:
  "js_less_eq (Fin c) y \<Longrightarrow> js_less_eq y (Fin d) \<Longrightarrow> c \<le> d"
  by (cases y) (auto simp: js_less_eq_def js_less_def)

lemma area_bound:
  assumes "js_less_eq (js_times (Fin a) (Fin b)) MAX_OUTPUT_SIZE"
  shows "a * b < 1048577"
proof (rule ccontr)
  assume "\<not> a * b < 1048577"
  then have "1048577 \<le> a * b" by simp
  then have "js_less_eq (Fin 1048577) (round_of (a * b) ((a < 0) \<noteq> (b < 0)))"
    by (rule round_of_ge [OF isDouble_consts(4)])
  moreover have "js_less_eq (round_of (a * b) ((a < 0) \<noteq> (b < 0))) (Fin 1048576)"
    using assms by (simp add: js_times_def MAX_OUTPUT_SIZE_def)
  ultimately have "(1048577::rat) \<le> 1048576" by (rule js_less_eq_sandwich)
  then show False by simp
qed

lemma area_ok:
  assumes "a * b \<le> 1048576"
  shows "js_less_eq (js_times (Fin a) (Fin b)) MAX_OUTPUT_SIZE"
  using round_of_le [OF isDouble_consts(3) assms] by (simp add: js_times_def MAX_OUTPUT_SIZE_def)

lemma gt1: "js_greater (Fin r) (Fin 1) = (1 < r)"
  by (simp add: js_greater_def js_less_def)

lemma js_times_512_not_NaN: "\<not> Number_isNaN a \<Longrightarrow> \<not> Number_isNaN (js_times (Fin 512) a)"
  by (cases a) (simp_all add: js_times_def round_of_not_NaN inf_of_def)

lemma js_divide_512_not_NaN: "\<not> Number_isNaN a \<Longrightarrow> \<not> Number_isNaN (js_divide (Fin 512) a)"
  by (cases a) (simp_all add: js_divide_def round_of_not_NaN inf_of_def zero_of_def)

lemma candidate_512:
  assumes "\<not> Number_isNaN x"
    and "js_less_eq (js_times (closestMultiple x (Fin 64)) (Fin 512)) MAX_OUTPUT_SIZE
       \<or> js_less_eq (js_times (Fin 512) (closestMultiple x (Fin 64))) MAX_OUTPUT_SIZE"
  shows "\<exists>k::int. 1 \<le> k \<and> k \<le> 32 \<and> closestMultiple x (Fin 64) = Fin (of_int (64 * k))"
proof -
  from closestMultiple_shape [OF assms(1)] show ?thesis
  proof
    assume "closestMultiple x (Fin 64) = PInf"
    with assms(2) show ?thesis
      by (simp add: js_times_def inf_of_def js_less_eq_def js_less_def MAX_OUTPUT_SIZE_def)
  next
    assume "\<exists>k::int. 1 \<le> k \<and> closestMultiple x (Fin 64) = Fin (64 * of_int k)"
    then obtain k :: int where k: "1 \<le> k" "closestMultiple x (Fin 64) = Fin (64 * of_int k)"
      by blast
    from assms(2) have "64 * rat_of_int k * 512 < 1048577"
      using area_bound [of "64 * of_int k" 512] area_bound [of 512 "64 * of_int k"]
      by (auto simp: k(2) mult.commute)
    then have "rat_of_int (32768 * k) < of_int 1048577" by simp
    then have "32768 * k < 1048577" by (simp only: of_int_less_iff)
    then have "k \<le> 32" by simp
    with k show ?thesis by (intro exI [of _ k]) simp
  qed
qed

lemma fit512_Some:
  assumes "fit512 a = Some s" and "\<not> Number_isNaN a"
  shows "posValid s"
proof (cases "js_greater a (Fin 1)")
  case True
  define x where "x = js_times (Fin 512) a"
  have x: "\<not> Number_isNaN x" unfolding x_def using assms(2) by (rule js_times_512_not_NaN)
  from assms(1) True
  have chk: "js_less_eq (js_times (closestMultiple x (Fin 64)) (Fin 512)) MAX_OUTPUT_SIZE"
    and s: "s = \<lparr>width = closestMultiple x (Fin 64), height = Fin 512\<rparr>"
    by (auto simp: fit512_def Let_def x_def split: if_splits)
  from candidate_512 [OF x] chk obtain k :: int
    where k: "1 \<le> k" "k \<le> 32" "closestMultiple x (Fin 64) = Fin (of_int (64 * k))" by blast
  have "k * 8 \<le> 256" using k(2) by simp
  then show ?thesis unfolding s using k(1,3) by (intro posValidI [of _ k _ 8]) simp_all
next
  case False
  define x where "x = js_divide (Fin 512) a"
  have x: "\<not> Number_isNaN x" unfolding x_def using assms(2) by (rule js_divide_512_not_NaN)
  from assms(1) False
  have chk: "js_less_eq (js_times (Fin 512) (closestMultiple x (Fin 64))) MAX_OUTPUT_SIZE"
    and s: "s = \<lparr>width = Fin 512, height = closestMultiple x (Fin 64)\<rparr>"
    by (auto simp: fit512_def Let_def x_def split: if_splits)
  from candidate_512 [OF x] chk obtain k :: int
    where k: "1 \<le> k" "k \<le> 32" "closestMultiple x (Fin 64) = Fin (of_int (64 * k))" by blast
  have "8 * k \<le> 256" using k(2) by simp
  then show ?thesis unfolding s using k(1,3) by (intro posValidI [of _ 8 _ k]) simp_all
qed

lemma js_divide_1024_le:
  assumes "js_greater a (Fin 1)"
  shows "js_less_eq (js_divide (Fin 1024) a) (Fin 1024)"
proof (cases a)
  case (Fin r)
  with assms have r: "1 < r" by (simp add: gt1)
  then have "1024 / r \<le> 1024" by (simp add: field_simps)
  moreover have "js_divide (Fin 1024) a = round_of (1024 / r) (r < 0)"
    using r by (simp add: Fin js_divide_def)
  ultimately show ?thesis using round_of_le [OF isDouble_consts(2)] by simp
qed (use assms in \<open>simp_all add: js_divide_def js_greater_def js_less_eq_def js_less_def
      inf_of_def zero_of_def\<close>)

lemma js_times_1024_le:
  assumes "\<not> js_greater a (Fin 1)" and "\<not> Number_isNaN a"
  shows "js_less_eq (js_times (Fin 1024) a) (Fin 1024)"
proof (cases a)
  case (Fin r)
  with assms have r: "r \<le> 1" by (simp add: gt1)
  then have "1024 * r \<le> 1024" by simp
  moreover have "js_times (Fin 1024) a = round_of (1024 * r) (r < 0)"
    by (simp add: Fin js_times_def)
  ultimately show ?thesis using round_of_le [OF isDouble_consts(2)] by simp
qed (use assms in \<open>simp_all add: js_times_def js_greater_def js_less_eq_def js_less_def
      inf_of_def zero_of_def round_of_def\<close>)

lemma fit1024_posValid:
  assumes "\<not> Number_isNaN a"
  shows "posValid (fit1024 a)"
proof (cases "js_greater a (Fin 1)")
  case True
  from closestMultiple_le [OF js_divide_1024_le [OF True]] obtain k :: int
    where k: "1 \<le> k" "k \<le> 16"
      "closestMultiple (js_divide (Fin 1024) a) (Fin 64) = Fin (64 * of_int k)" by blast
  have "16 * k \<le> 256" using k(2) by simp
  moreover have "fit1024 a = \<lparr>width = Fin 1024, height = Fin (64 * of_int k)\<rparr>"
    using True k(3) by (simp add: fit1024_def Let_def)
  ultimately show ?thesis using k(1) by (simp add: posValidI [of _ 16 _ k])
next
  case False
  from closestMultiple_le [OF js_times_1024_le [OF False assms]] obtain k :: int
    where k: "1 \<le> k" "k \<le> 16"
      "closestMultiple (js_times (Fin 1024) a) (Fin 64) = Fin (64 * of_int k)" by blast
  have "k * 16 \<le> 256" using k(2) by simp
  moreover have "fit1024 a = \<lparr>width = Fin (64 * of_int k), height = Fin 1024\<rparr>"
    using False k(3) by (simp add: fit1024_def Let_def)
  ultimately show ?thesis using k(1) by (simp add: posValidI [of _ k _ 16])
qed

lemma fit_posValid:
  assumes "\<not> Number_isNaN a"
  shows "posValid (case fit512 a of Some s \<Rightarrow> s | None \<Rightarrow> fit1024 a)"
proof (cases "fit512 a")
  case None
  then show ?thesis using fit1024_posValid [OF assms] by simp
next
  case (Some s)
  then show ?thesis using fit512_Some [OF Some assms] by simp
qed

lemma fit_NaN:
  "(case fit512 NaN of Some s \<Rightarrow> s | None \<Rightarrow> fit1024 NaN) = \<lparr>width = Fin 512, height = Fin 0\<rparr>"
  by code_simp

lemma trunc_of_int: "trunc (of_int k) = k"
  by (simp add: trunc_def)

lemma js_rem_64_zero:
  assumes "js_strict_eq (js_rem x (Fin 64)) (Fin 0)" "js_greater x (Fin 0)"
  shows "\<exists>m::int. x = Fin (of_int (64 * m)) \<and> 1 \<le> m"
proof (cases x)
  case (Fin r)
  with assms(2) have r: "0 < r" by (simp add: js_greater_def js_less_def)
  with assms(1) Fin have "r - 64 * of_int (trunc (r / 64)) = 0"
    by (simp add: js_rem_def js_strict_eq_def exact_of_def zero_of_def split: if_splits)
  then have eq: "r = of_int (64 * trunc (r / 64))" by simp
  with r have "0 < rat_of_int (64 * trunc (r / 64))" by simp
  then have "0 < 64 * trunc (r / 64)" by (simp only: of_int_0_less_iff)
  then have "1 \<le> trunc (r / 64)" by simp
  with eq Fin show ?thesis by blast
qed (use assms in \<open>simp_all add: js_rem_def js_strict_eq_def js_greater_def js_less_def\<close>)

lemma js_rem_multiple: "js_strict_eq (js_rem (Fin (of_int (64 * k))) (Fin 64)) (Fin 0)"
proof -
  have "rat_of_int (64 * k) / 64 = of_int k" by simp
  then have "trunc (rat_of_int (64 * k) / 64) = k" by (simp only: trunc_of_int)
  then show ?thesis
    by (simp add: js_rem_def js_strict_eq_def exact_of_def zero_of_def)
qed

lemma posValid_asIs:
  assumes "posValid s"
  shows "asIs s"
proof -
  from assms obtain m n :: int
    where s: "s = \<lparr>width = Fin (of_int (64 * m)), height = Fin (of_int (64 * n))\<rparr>"
      and mn: "1 \<le> m" "1 \<le> n" "m * n \<le> 256" unfolding posValid_def by blast
  have "rat_of_int (64 * m) * rat_of_int (64 * n) = of_int (4096 * (m * n))" by simp
  also have "\<dots> \<le> of_int 1048576" using mn(3) by (simp only: of_int_le_iff)
  finally have "rat_of_int (64 * m) * rat_of_int (64 * n) \<le> 1048576" by simp
  then have "js_less_eq (js_times (Fin (of_int (64 * m))) (Fin (of_int (64 * n)))) MAX_OUTPUT_SIZE"
    by (rule area_ok)
  then show ?thesis unfolding s asIs_def using js_rem_multiple [of m] js_rem_multiple [of n] by simp
qed

lemma asIs_positive:
  assumes "asIs \<lparr>width = w, height = h\<rparr>" and "js_greater w (Fin 0)" and "js_greater h (Fin 0)"
  shows "posValid \<lparr>width = w, height = h\<rparr>"
proof -
  from assms obtain m n :: int where
    mn: "w = Fin (of_int (64 * m))" "1 \<le> m" "h = Fin (of_int (64 * n))" "1 \<le> n"
    using js_rem_64_zero [of w] js_rem_64_zero [of h] by (auto simp: asIs_def)
  from assms(1) have "rat_of_int (64 * m) * rat_of_int (64 * n) < 1048577"
    unfolding asIs_def mn by (intro area_bound) simp
  then have "rat_of_int (4096 * (m * n)) < of_int 1048577" by simp
  then have "4096 * (m * n) < 1048577" by (simp only: of_int_less_iff)
  then have "m * n \<le> 256" by simp
  with mn show ?thesis by (intro posValidI) simp_all
qed

lemma zero_asIs: "isZero w \<Longrightarrow> isZero h \<Longrightarrow> asIs \<lparr>width = w, height = h\<rparr>"
  by (cases w; cases h)
    (simp_all add: asIs_def js_rem_def js_strict_eq_def js_times_def js_less_eq_def js_less_def
      round_of_def zero_of_def MAX_OUTPUT_SIZE_def)

lemma js_divide_finite_NaN:
  "isFinite w \<Longrightarrow> isFinite h \<Longrightarrow> Number_isNaN (js_divide w h) \<Longrightarrow> isZero w \<and> isZero h"
  by (cases w; cases h)
    (simp_all add: js_divide_def round_of_not_NaN zero_of_def inf_of_def split: if_splits)

lemma js_divide_positive_NaN:
  "js_greater w (Fin 0) \<Longrightarrow> js_greater h (Fin 0) \<Longrightarrow> Number_isNaN (js_divide w h)
    \<Longrightarrow> w = PInf \<and> h = PInf"
  by (cases w; cases h)
    (simp_all add: js_divide_def round_of_not_NaN zero_of_def inf_of_def js_greater_def js_less_def
      split: if_splits)

section \<open>Properties of the size fitting\<close>

text \<open>
  Claim C1. For every input with \<open>width > 0\<close> and \<open>height > 0\<close>, \<open>resizeInput\<close> returns
  a size that passes the check \<open>width % 64 === 0 && height % 64 === 0 && width * height <=
  MAX_OUTPUT_SIZE\<close>: both dimensions are multiples of 64 and their product is at most
  1048576, whichever of the three branches returns. The width is strictly positive, and so
  is the height unless both inputs are +Infinity (the aspect ratio is then NaN and the
  result is 512 by 0).
\<close>

theorem resizeInput_valid:
  assumes "js_greater w (Fin 0)" and "js_greater h (Fin 0)"
  shows "asIs (resizeInput \<lparr>width = w, height = h\<rparr>)
    \<and> (\<exists>m n::int. resizeInput \<lparr>width = w, height = h\<rparr>
            = \<lparr>width = Fin (of_int (64 * m)), height = Fin (of_int (64 * n))\<rparr>
          \<and> 1 \<le> m \<and> 0 \<le> n \<and> (64 * m) * (64 * n) \<le> 1048576
          \<and> (n = 0 \<longrightarrow> w = PInf \<and> h = PInf))"
proof -
  let ?r = "resizeInput \<lparr>width = w, height = h\<rparr>"
  have pv: "?thesis" if "posValid ?r"
  proof -
    from that obtain m n :: int
      where r: "?r = \<lparr>width = Fin (of_int (64 * m)), height = Fin (of_int (64 * n))\<rparr>"
        and mn: "1 \<le> m" "1 \<le> n" "m * n \<le> 256" unfolding posValid_def by blast
    have "(64 * m) * (64 * n) = 4096 * (m * n)" by simp
    with mn(3) have "(64 * m) * (64 * n) \<le> 1048576" by linarith
    with r mn(1,2) have "\<exists>m n::int. ?r = \<lparr>width = Fin (of_int (64 * m)), height = Fin (of_int (64 * n))\<rparr>
          \<and> 1 \<le> m \<and> 0 \<le> n \<and> (64 * m) * (64 * n) \<le> 1048576
          \<and> (n = 0 \<longrightarrow> w = PInf \<and> h = PInf)"
      by (intro exI [of _ m] exI [of _ n]) simp
    with posValid_asIs [OF that] show ?thesis by blast
  qed
  show ?thesis
  proof (cases "asIs \<lparr>width = w, height = h\<rparr>")
    case True
    then have "?r = \<lparr>width = w, height = h\<rparr>" by (simp add: resizeInput_def)
    with asIs_positive [OF True assms] show ?thesis by (intro pv) simp
  next
    case False
    then have r: "?r = (case fit512 a of Some s \<Rightarrow> s | None \<Rightarrow> fit1024 a)"
      if "js_divide w h = a" for a
      using that by (auto simp add: resizeInput_def Let_def)
    show ?thesis
    proof (cases "Number_isNaN (js_divide w h)")
      case True
      then have "js_divide w h = NaN" by (cases "js_divide w h") simp_all
      then have eq: "?r = \<lparr>width = Fin (of_int (64 * 8)), height = Fin (of_int (64 * 0))\<rparr>"
        using r [of NaN] by (simp add: fit_NaN)
      have inf: "w = PInf \<and> h = PInf" using assms True by (rule js_divide_positive_NaN)
      have "asIs \<lparr>width = Fin 512, height = Fin 0\<rparr>" by code_simp
      then have "asIs ?r" using eq by simp
      moreover have "\<exists>m n::int. ?r = \<lparr>width = Fin (of_int (64 * m)), height = Fin (of_int (64 * n))\<rparr>
          \<and> 1 \<le> m \<and> 0 \<le> n \<and> (64 * m) * (64 * n) \<le> 1048576
          \<and> (n = 0 \<longrightarrow> w = PInf \<and> h = PInf)"
        using eq inf by (intro exI [of _ 8] exI [of _ 0]) simp
      ultimately show ?thesis by blast
    next
      case False
      then have "posValid ?r" unfolding r [OF refl] by (rule fit_posValid)
      then show ?thesis by (rule pv)
    qed
  qed
qed

theorem resizeInput_valid_witness:
  "js_greater (Fin 1000) (Fin 0) \<and> js_greater (Fin 100) (Fin 0)
   \<and> asIs (resizeInput \<lparr>width = Fin 1000, height = Fin 100\<rparr>)
   \<and> (\<exists>m n::int. resizeInput \<lparr>width = Fin 1000, height = Fin 100\<rparr>
            = \<lparr>width = Fin (of_int (64 * m)), height = Fin (of_int (64 * n))\<rparr>
          \<and> 1 \<le> m \<and> 0 \<le> n \<and> (64 * m) * (64 * n) \<le> 1048576
          \<and> (n = 0 \<longrightarrow> (Fin 1000 = PInf \<and> Fin 100 = PInf)))"
proof -
  have a: "js_greater (Fin 1000) (Fin 0)" by (simp add: js_greater_def js_less_def)
  have b: "js_greater (Fin 100) (Fin 0)" by (simp add: js_greater_def js_less_def)
  from resizeInput_valid [OF a b] a b show ?thesis by blast
qed

text \<open>
  Claim C3, amended. A finite positive double \<open>v\<close> that lies halfway between two
  consecutive multiples of 64 is sent by \<open>closestMultiple v 64\<close> to the upper one: the
  comparison is strict, so a tie takes the \<open>ceil\<close> branch.
\<close>

theorem closestMultiple_tie_ceil:
  assumes "isDouble v" and "0 < v"
    and "v - of_int (\<lfloor>v / 64\<rfloor> * 64) = of_int (\<lceil>v / 64\<rceil> * 64) - v"
    and "\<lfloor>v / 64\<rfloor> * 64 \<noteq> \<lceil>v / 64\<rceil> * 64"
  shows "closestMultiple (Fin v) (Fin 64) = Fin (of_int (\<lceil>v / 64\<rceil> * 64))"
proof -
  define j where "j = \<lfloor>v / 64\<rfloor>"
  have ne: "\<lfloor>v / 64\<rfloor> \<noteq> \<lceil>v / 64\<rceil>" using assms(4) by auto
  have "\<lfloor>v / 64\<rfloor> \<le> \<lceil>v / 64\<rceil>" by (rule floor_le_ceiling)
  then have c: "\<lceil>v / 64\<rceil> = j + 1"
    unfolding j_def using ne ceiling_diff_floor_le_1 [of "v / 64"] by linarith
  have v: "v = of_int (64 * j + 32)" using assms(3) by (simp add: c j_def [symmetric])
  have j0: "0 \<le> j" using assms(2) by (simp add: j_def)
  have "v < 2 ^ 58" using assms(1,2) ne by (rule tie_small)
  then have "rat_of_int (64 * j + 32) < of_int (2 ^ 58)" by (simp add: v)
  then have "64 * j + 32 < 2 ^ 58" by (simp only: of_int_less_iff)
  then have j52: "j < 2 ^ 52" by simp
  have q: "js_divide (Fin v) (Fin 64) = Fin (of_int (2 * j + 1) * 2 powi (- 1))"
  proof -
    define y where "y = rat_of_int (2 * j + 1) * 2 powi (- 1)"
    have "isDouble y"
      unfolding y_def using j0 j52 by (intro isDouble_exact) (simp_all add: power_int_minus)
    moreover have "y \<noteq> 0" using j0 by (simp add: y_def power_int_minus)
    ultimately have "round_of y False = Fin y" by (rule round_of_exact)
    moreover have "v / 64 = y" by (simp add: v y_def power_int_minus field_simps)
    moreover have "js_divide (Fin v) (Fin 64) = round_of (v / 64) False"
      using assms(2) by (simp add: js_divide_def)
    ultimately show ?thesis by (simp only: y_def)
  qed
  have fl: "\<lfloor>rat_of_int (2 * j + 1) * 2 powi (- 1)\<rfloor> = j"
    and ce: "\<lceil>rat_of_int (2 * j + 1) * 2 powi (- 1)\<rceil> = j + 1"
    by (simp_all add: power_int_minus floor_unique ceiling_unique field_simps)
  have mul: "js_times (Fin (of_int k)) (Fin 64) = Fin (of_int (64 * k))"
    if "0 \<le> k" "k < 2 ^ 53" for k :: int
  proof (cases "k = 0")
    case True
    then show ?thesis by (simp add: js_times_def round_of_def zero_of_def)
  next
    case False
    have "rat_of_int k < of_int (2 ^ 53)" using that(2) by (simp only: of_int_less_iff)
    then have "rat_of_int k * 2 powi 6 < 2 ^ 60" by simp
    then have "isDouble (of_int k * 2 powi 6)"
      using that by (intro isDouble_exact) simp_all
    then have "round_of (of_int k * 64) False = Fin (of_int k * 64)"
      using False round_of_exact [of "of_int k * 64" False] by simp
    then show ?thesis using that(1) by (simp add: js_times_def mult.commute)
  qed
  have fm: "js_times (Math_floor (js_divide (Fin v) (Fin 64))) (Fin 64) = Fin (of_int (64 * j))"
    unfolding q Math_floor.simps fl using j0 j52 by (intro mul) simp_all
  have mc: "Math_ceil (js_divide (Fin v) (Fin 64)) = Fin (of_int (j + 1))"
    unfolding q Math_ceil.simps ce using j0 by (simp add: exact_of_def)
  have cm: "js_times (Math_ceil (js_divide (Fin v) (Fin 64))) (Fin 64) = Fin (of_int (64 * (j + 1)))"
    unfolding mc using j0 j52 by (intro mul) simp_all
  have r32: "round_of 32 False = Fin 32"
    using round_of_exact [OF isDouble_consts(5), of False] by simp
  have d1: "js_minus (Fin v) (Fin (of_int (64 * j))) = Fin 32"
    using r32 by (simp add: js_minus_def v)
  have d2: "js_minus (Fin (of_int (64 * (j + 1)))) (Fin v) = Fin 32"
    using r32 by (simp add: js_minus_def v)
  have "closestMultiple (Fin v) (Fin 64) = Fin (of_int (64 * (j + 1)))"
    unfolding closestMultiple_unfold fm cm d1 d2 using j0
    by (simp add: js_less_def js_less_eq_def)
  then show ?thesis by (simp add: c mult.commute)
qed

theorem closestMultiple_tie_ceil_witness:
  "isDouble 96 \<and> (0::rat) < 96
   \<and> (96::rat) - of_int (\<lfloor>(96::rat) / 64\<rfloor> * 64) = of_int (\<lceil>(96::rat) / 64\<rceil> * 64) - 96
   \<and> \<lfloor>(96::rat) / 64\<rfloor> * 64 \<noteq> \<lceil>(96::rat) / 64\<rceil> * 64
   \<and> closestMultiple (Fin 96) (Fin 64) = Fin (of_int (\<lceil>(96::rat) / 64\<rceil> * 64))"
proof -
  have h0: "isDouble 96" by code_simp
  have h1: "(0::rat) < 96" by simp
  have h2: "(96::rat) - of_int (\<lfloor>(96::rat) / 64\<rfloor> * 64) = of_int (\<lceil>(96::rat) / 64\<rceil> * 64) - 96"
    by code_simp
  have h3: "\<lfloor>(96::rat) / 64\<rfloor> * 64 \<noteq> \<lceil>(96::rat) / 64\<rceil> * 64" by code_simp
  show ?thesis using h0 h1 h2 h3 closestMultiple_tie_ceil [OF h0 h1 h2 h3] by blast
qed

text \<open>
  The claim as it was stated, with the lower multiple, fails at \<open>v = 96\<close>: halfway
  between 64 and 128, it goes to 128.
\<close>

theorem closestMultiple_tie_floor_counterexample:
  "isDouble 96 \<and> (0::rat) < 96
   \<and> (96::rat) - of_int (\<lfloor>(96::rat) / 64\<rfloor> * 64) = of_int (\<lceil>(96::rat) / 64\<rceil> * 64) - 96
   \<and> \<lfloor>(96::rat) / 64\<rfloor> * 64 \<noteq> \<lceil>(96::rat) / 64\<rceil> * 64
   \<and> closestMultiple (Fin 96) (Fin 64) = Fin 128
   \<and> closestMultiple (Fin 96) (Fin 64) \<noteq> Fin (of_int (\<lfloor>(96::rat) / 64\<rfloor> * 64))"
  by code_simp

text \<open>
  Claim C4, amended. For an input with a zero or negative width or height: an input
  that passes the as-is check is returned unchanged, its zero or negative dimensions
  included; otherwise, when the aspect ratio is NaN the result is 512 by 0, and when it is
  not, both dimensions of the result are strictly positive multiples of 64 with an area of
  at most 1048576. A finite input that fails the as-is check never has a NaN aspect
  ratio.
\<close>

theorem resizeInput_degenerate:
  assumes "js_less_eq w (Fin 0) \<or> js_less_eq h (Fin 0)"
  shows "(asIs \<lparr>width = w, height = h\<rparr> \<longrightarrow>
            resizeInput \<lparr>width = w, height = h\<rparr> = \<lparr>width = w, height = h\<rparr>)
    \<and> (\<not> asIs \<lparr>width = w, height = h\<rparr> \<and> Number_isNaN (js_divide w h) \<longrightarrow>
          resizeInput \<lparr>width = w, height = h\<rparr> = \<lparr>width = Fin 512, height = Fin 0\<rparr>)
    \<and> (\<not> asIs \<lparr>width = w, height = h\<rparr> \<and> \<not> Number_isNaN (js_divide w h) \<longrightarrow>
          (\<exists>m n::int. resizeInput \<lparr>width = w, height = h\<rparr>
              = \<lparr>width = Fin (of_int (64 * m)), height = Fin (of_int (64 * n))\<rparr>
            \<and> 1 \<le> m \<and> 1 \<le> n \<and> (64 * m) * (64 * n) \<le> 1048576))
    \<and> (isFinite w \<and> isFinite h \<and> \<not> asIs \<lparr>width = w, height = h\<rparr> \<longrightarrow>
          \<not> Number_isNaN (js_divide w h))"
proof -
  let ?r = "resizeInput \<lparr>width = w, height = h\<rparr>"
  have r: "?r = (case fit512 a of Some s \<Rightarrow> s | None \<Rightarrow> fit1024 a)"
    if "\<not> asIs \<lparr>width = w, height = h\<rparr>" and "js_divide w h = a" for a
    using that by (auto simp add: resizeInput_def Let_def)
  have p1: "asIs \<lparr>width = w, height = h\<rparr> \<longrightarrow> ?r = \<lparr>width = w, height = h\<rparr>"
    by (simp add: resizeInput_def)
  have p2: "\<not> asIs \<lparr>width = w, height = h\<rparr> \<and> Number_isNaN (js_divide w h) \<longrightarrow>
      ?r = \<lparr>width = Fin 512, height = Fin 0\<rparr>"
  proof
    assume a: "\<not> asIs \<lparr>width = w, height = h\<rparr> \<and> Number_isNaN (js_divide w h)"
    then have "js_divide w h = NaN" by (cases "js_divide w h") simp_all
    with a show "?r = \<lparr>width = Fin 512, height = Fin 0\<rparr>"
      using r [of NaN] by (simp add: fit_NaN)
  qed
  have p3: "\<not> asIs \<lparr>width = w, height = h\<rparr> \<and> \<not> Number_isNaN (js_divide w h) \<longrightarrow>
      (\<exists>m n::int. ?r = \<lparr>width = Fin (of_int (64 * m)), height = Fin (of_int (64 * n))\<rparr>
            \<and> 1 \<le> m \<and> 1 \<le> n \<and> (64 * m) * (64 * n) \<le> 1048576)"
  proof
    assume a: "\<not> asIs \<lparr>width = w, height = h\<rparr> \<and> \<not> Number_isNaN (js_divide w h)"
    then have "posValid (case fit512 (js_divide w h) of Some s \<Rightarrow> s | None \<Rightarrow> fit1024 (js_divide w h))"
      using fit_posValid [of "js_divide w h"] by blast
    then have "posValid ?r" using a r [OF _ refl] by simp
    then obtain m n :: int
      where "?r = \<lparr>width = Fin (of_int (64 * m)), height = Fin (of_int (64 * n))\<rparr>"
        and mn: "1 \<le> m" "1 \<le> n" "m * n \<le> 256"
      unfolding posValid_def by blast
    moreover have "(64 * m) * (64 * n) = 4096 * (m * n)" by simp
    with mn(3) have "(64 * m) * (64 * n) \<le> 1048576" by linarith
    ultimately show "\<exists>m n::int. ?r = \<lparr>width = Fin (of_int (64 * m)), height = Fin (of_int (64 * n))\<rparr>
            \<and> 1 \<le> m \<and> 1 \<le> n \<and> (64 * m) * (64 * n) \<le> 1048576"
      by (intro exI [of _ m] exI [of _ n]) simp
  qed
  have p4: "isFinite w \<and> isFinite h \<and> \<not> asIs \<lparr>width = w, height = h\<rparr> \<longrightarrow>
      \<not> Number_isNaN (js_divide w h)"
    using js_divide_finite_NaN [of w h] zero_asIs [of w h] by blast
  from p1 p2 p3 p4 show ?thesis by blast
qed

theorem resizeInput_degenerate_witness:
  "(js_less_eq (Fin 0) (Fin 0) \<or> js_less_eq (Fin (- 5)) (Fin 0))
   \<and> \<not> asIs \<lparr>width = Fin 0, height = Fin (- 5)\<rparr>
   \<and> \<not> Number_isNaN (js_divide (Fin 0) (Fin (- 5)))
   \<and> (\<exists>m n::int. resizeInput \<lparr>width = Fin 0, height = Fin (- 5)\<rparr>
          = \<lparr>width = Fin (of_int (64 * m)), height = Fin (of_int (64 * n))\<rparr>
        \<and> 1 \<le> m \<and> 1 \<le> n \<and> (64 * m) * (64 * n) \<le> 1048576)"
proof -
  have h: "js_less_eq (Fin 0) (Fin 0) \<or> js_less_eq (Fin (- 5)) (Fin 0)" by code_simp
  have a: "\<not> asIs \<lparr>width = Fin 0, height = Fin (- 5)\<rparr>" by code_simp
  have n: "\<not> Number_isNaN (js_divide (Fin 0) (Fin (- 5)))" by code_simp
  from resizeInput_degenerate [OF h] a n h show ?thesis by blast
qed

text \<open>
  The claim as it was stated, with a strictly positive result for every such input, fails
  at 0 by 0, which passes the as-is check and is returned as it is.
\<close>

theorem resizeInput_degenerate_counterexample:
  "js_less_eq (Fin 0) (Fin 0)
   \<and> resizeInput \<lparr>width = Fin 0, height = Fin 0\<rparr> = \<lparr>width = Fin 0, height = Fin 0\<rparr>
   \<and> \<not> js_greater (width (resizeInput \<lparr>width = Fin 0, height = Fin 0\<rparr>)) (Fin 0)
   \<and> \<not> js_greater (height (resizeInput \<lparr>width = Fin 0, height = Fin 0\<rparr>)) (Fin 0)"
  by code_simp

text \<open>
  Claim C5. \<open>resizeInput\<close> sends 1000 by 100 to 1024 by 128: the as-is check fails, the
  aspect ratio is 10, the 512 step gives the width 5120 whose area is over the ceiling, and
  the 1024 step gives the height \<open>closestMultiple 102.4 64 = 128\<close>, where \<open>1024 / 10\<close> is
  the double nearest to 102.4.
\<close>

theorem resizeInput_1000_100:
  "\<not> asIs \<lparr>width = Fin 1000, height = Fin 100\<rparr>
   \<and> js_divide (Fin 1000) (Fin 100) = Fin 10
   \<and> js_greater (Fin 10) (Fin 1)
   \<and> closestMultiple (js_times (Fin 512) (Fin 10)) (Fin 64) = Fin 5120
   \<and> \<not> js_less_eq (js_times (Fin 5120) (Fin 512)) MAX_OUTPUT_SIZE
   \<and> fit512 (Fin 10) = None
   \<and> js_divide (Fin 1024) (Fin 10) = Fin (7205759403792794 / 2 ^ 46)
   \<and> round_double (1024 / 10) = 7205759403792794 / 2 ^ 46
   \<and> closestMultiple (Fin (7205759403792794 / 2 ^ 46)) (Fin 64) = Fin 128
   \<and> closestMultiple (Fin (1024 / 10)) (Fin 64) = Fin 128
   \<and> resizeInput \<lparr>width = Fin 1000, height = Fin 100\<rparr> = \<lparr>width = Fin 1024, height = Fin 128\<rparr>"
  by code_simp

text \<open>
  Claim C8. \<open>closestMultiple NaN 64\<close> is 0: the NaN test returns before the test that
  replaces a non-positive multiple by 64.
\<close>

theorem closestMultiple_NaN:
  "closestMultiple NaN (Fin 64) = Fin 0 \<and> closestMultiple NaN (Fin 64) \<noteq> Fin 64"
  by code_simp

section \<open>Properties of \<^verbatim>\<open>download\<close>\<close>

text \<open>
  The matcher returns the two groups exactly on the strings that the pattern describes.
\<close>

lemma stripPrefix_iff: "stripPrefix p s = Some r \<longleftrightarrow> s = p @ r"
  by (induction p s rule: stripPrefix.induct) auto

lemma str_append: "str (a @ b) = str a @ str b"
  by (simp add: str_def)

lemma str_base64_marker: "str '';base64,'' = 59 # str ''base64,''"
  by (simp add: str_def)

lemma not_word_semicolon: "\<not> isWordChar 59"
  by (simp add: isWordChar_def)

lemma match_data_iff:
  "match_data url = Some (t, b) \<longleftrightarrow>
     (\<exists>w. w \<noteq> [] \<and> list_all isWordChar w \<and> \<not> list_ex isLineTerminator b
        \<and> t = str ''image/'' @ w
        \<and> url = str ''data:image/'' @ w @ str '';base64,'' @ b)"
proof
  assume m: "match_data url = Some (t, b)"
  then obtain r where r: "stripPrefix (str ''data:image/'') url = Some r"
    by (auto simp: match_data_def split: option.splits)
  define w where "w = takeWhile isWordChar r"
  from m r have w: "w \<noteq> []"
    by (auto simp: match_data_def Let_def w_def split: option.splits if_splits)
  from m r w have p: "stripPrefix (str '';base64,'') (dropWhile isWordChar r) = Some b"
    and b: "\<not> list_ex isLineTerminator b" and t: "t = str ''image/'' @ w"
    by (auto simp: match_data_def Let_def w_def split: option.splits if_splits)
  have "r = w @ dropWhile isWordChar r" by (simp add: w_def)
  with p have "r = w @ str '';base64,'' @ b" by (simp add: stripPrefix_iff)
  with r have "url = str ''data:image/'' @ w @ str '';base64,'' @ b"
    by (simp add: stripPrefix_iff)
  moreover have "list_all isWordChar w"
    by (auto simp: w_def list_all_iff dest: set_takeWhileD)
  ultimately show "\<exists>w. w \<noteq> [] \<and> list_all isWordChar w \<and> \<not> list_ex isLineTerminator b
        \<and> t = str ''image/'' @ w
        \<and> url = str ''data:image/'' @ w @ str '';base64,'' @ b"
    using w b t by blast
next
  assume "\<exists>w. w \<noteq> [] \<and> list_all isWordChar w \<and> \<not> list_ex isLineTerminator b
        \<and> t = str ''image/'' @ w
        \<and> url = str ''data:image/'' @ w @ str '';base64,'' @ b"
  then obtain w where w: "w \<noteq> []" "list_all isWordChar w" and b: "\<not> list_ex isLineTerminator b"
    and t: "t = str ''image/'' @ w" and url: "url = str ''data:image/'' @ w @ str '';base64,'' @ b"
    by blast
  have r: "stripPrefix (str ''data:image/'') url = Some (w @ str '';base64,'' @ b)"
    by (simp add: stripPrefix_iff url)
  have all: "\<forall>c\<in>set w. isWordChar c" using w(2) by (simp add: list_all_iff)
  have tw: "takeWhile isWordChar (w @ str '';base64,'' @ b) = w"
    using all by (simp add: str_base64_marker not_word_semicolon)
  have dw: "dropWhile isWordChar (w @ str '';base64,'' @ b) = str '';base64,'' @ b"
    using all by (simp add: str_base64_marker not_word_semicolon)
  have p: "stripPrefix (str '';base64,'') (str '';base64,'' @ b) = Some b"
    by (simp add: stripPrefix_iff)
  show "match_data url = Some (t, b)"
    using w(1) b t by (simp add: match_data_def r Let_def tw dw p)
qed

lemma match_data_None_iff:
  "match_data url = None \<longleftrightarrow>
     \<not> (\<exists>w b. w \<noteq> [] \<and> list_all isWordChar w \<and> \<not> list_ex isLineTerminator b
            \<and> url = str ''data:image/'' @ w @ str '';base64,'' @ b)"
proof -
  have "match_data url \<noteq> None \<longleftrightarrow> (\<exists>t b. match_data url = Some (t, b))" by auto
  also have "\<dots> \<longleftrightarrow> (\<exists>w b. w \<noteq> [] \<and> list_all isWordChar w \<and> \<not> list_ex isLineTerminator b
            \<and> url = str ''data:image/'' @ w @ str '';base64,'' @ b)"
    unfolding match_data_iff by blast
  finally show ?thesis by blast
qed

lemma download_network:
  assumes "\<not> startsWith url (str ''data:'')" and "http_head P url headers = Inr head"
  shows "download P url headers =
     (if js_greater (unaryPlus P (head ''content-length'')) MAX_CONTENT_SIZE
      then (Inl (Error ''file too large''), [HEAD url])
      else if Array_includes ALLOWED_TYPES (head ''content-type'')
      then (Inl (Error ''unsupported file type''), [HEAD url])
      else (case http_get P url headers of
              Inl e \<Rightarrow> (Inl (Rejected e), [HEAD url, GET url])
            | Inr body \<Rightarrow> (Inr body, [HEAD url, GET url])))"
  using assms by (simp add: download_def)

text \<open>
  Claim C2, amended. On the network path \<open>download\<close> fails with the error "unsupported
  file type" exactly when the reported content type is one of the two allowed types and
  the reported length is not over the limit, the size being tested first; with any other
  content type (or none) and a length within the limit, the type check passes and the
  result is that of the GET request.
\<close>

theorem download_type_check_inverted:
  assumes "\<not> startsWith url (str ''data:'')" and "http_head P url headers = Inr head"
  shows "(fst (download P url headers) = Inl (Error ''unsupported file type''))
       = ((head ''content-type'' = Some (str ''image/jpeg'') \<or> head ''content-type'' = Some (str ''image/png''))
          \<and> \<not> js_greater (unaryPlus P (head ''content-length'')) MAX_CONTENT_SIZE)
    \<and> (head ''content-type'' \<noteq> Some (str ''image/jpeg'') \<and> head ''content-type'' \<noteq> Some (str ''image/png'')
        \<and> \<not> js_greater (unaryPlus P (head ''content-length'')) MAX_CONTENT_SIZE
        \<longrightarrow> download P url headers =
              (case http_get P url headers of
                 Inl e \<Rightarrow> (Inl (Rejected e), [HEAD url, GET url])
               | Inr body \<Rightarrow> (Inr body, [HEAD url, GET url])))"
proof -
  have inc: "Array_includes ALLOWED_TYPES v = (v = Some (str ''image/jpeg'') \<or> v = Some (str ''image/png''))" for v
    by (cases v) (auto simp: Array_includes_def ALLOWED_TYPES_def)
  show ?thesis
    using assms by (auto simp: download_network inc split: sum.splits)
qed

theorem download_type_check_inverted_witness:
  "\<not> startsWith (str ''http://x/a.png'') (str ''data:'')
   \<and> \<not> js_greater (unaryPlus (examplePlatform (str ''1024'') (str ''image/png'')) (Some (str ''1024'')))
        MAX_CONTENT_SIZE
   \<and> fst (download (examplePlatform (str ''1024'') (str ''image/png'')) (str ''http://x/a.png'') ())
       = Inl (Error ''unsupported file type'')
   \<and> download (examplePlatform (str ''1024'') (str ''image/gif'')) (str ''http://x/a.png'') ()
       = (Inr [137, 80, 78, 71], [HEAD (str ''http://x/a.png''), GET (str ''http://x/a.png'')])"
proof -
  let ?P = "examplePlatform (str ''1024'') (str ''image/png'')"
  let ?Q = "examplePlatform (str ''1024'') (str ''image/gif'')"
  let ?hp = "[''content-length'' \<mapsto> str ''1024'', ''content-type'' \<mapsto> str ''image/png'']"
  let ?hq = "[''content-length'' \<mapsto> str ''1024'', ''content-type'' \<mapsto> str ''image/gif'']"
  have s: "\<not> startsWith (str ''http://x/a.png'') (str ''data:'')" by code_simp
  have hp: "http_head ?P (str ''http://x/a.png'') () = Inr ?hp" by (simp add: examplePlatform_def)
  have hq: "http_head ?Q (str ''http://x/a.png'') () = Inr ?hq" by (simp add: examplePlatform_def)
  have e: "str ''1024'' \<noteq> str ''20000000''" by code_simp
  have gp: "\<not> js_greater (unaryPlus ?P (Some (str ''1024''))) MAX_CONTENT_SIZE"
    using e by (simp add: unaryPlus_def examplePlatform_def js_greater_def js_less_def MAX_CONTENT_SIZE_def)
  have gq: "\<not> js_greater (unaryPlus ?Q (Some (str ''1024''))) MAX_CONTENT_SIZE"
    using e by (simp add: unaryPlus_def examplePlatform_def js_greater_def js_less_def MAX_CONTENT_SIZE_def)
  have d1: "str ''image/gif'' \<noteq> str ''image/jpeg''" by code_simp
  have d2: "str ''image/gif'' \<noteq> str ''image/png''" by code_simp
  have get: "http_get ?Q (str ''http://x/a.png'') () = Inr [137, 80, 78, 71]"
    by (simp add: examplePlatform_def)
  from download_type_check_inverted [OF s hp] gp have 1:
    "fst (download ?P (str ''http://x/a.png'') ()) = Inl (Error ''unsupported file type'')" by simp
  from download_type_check_inverted [OF s hq] gq d1 d2 get have 2:
    "download ?Q (str ''http://x/a.png'') () = (Inr [137, 80, 78, 71], [HEAD (str ''http://x/a.png''), GET (str ''http://x/a.png'')])"
    by simp
  from 1 2 s gp show ?thesis by simp
qed

text \<open>
  The claim as it was stated, without the condition on the length, fails for a response
  of 20000000 bytes of \<open>image/png\<close>: the type is an allowed one and the error is "file too
  large".
\<close>

theorem download_type_check_counterexample:
  "\<not> startsWith (str ''http://x/a.png'') (str ''data:'')
   \<and> http_head (examplePlatform (str ''20000000'') (str ''image/png'')) (str ''http://x/a.png'') ()
       = Inr [''content-length'' \<mapsto> str ''20000000'', ''content-type'' \<mapsto> str ''image/png'']
   \<and> Array_includes ALLOWED_TYPES (Some (str ''image/png''))
   \<and> fst (download (examplePlatform (str ''20000000'') (str ''image/png'')) (str ''http://x/a.png'') ())
       = Inl (Error ''file too large'')
   \<and> fst (download (examplePlatform (str ''20000000'') (str ''image/png'')) (str ''http://x/a.png'') ())
       \<noteq> Inl (Error ''unsupported file type'')"
proof -
  have s: "\<not> startsWith (str ''http://x/a.png'') (str ''data:'')" by code_simp
  have h: "http_head (examplePlatform (str ''20000000'') (str ''image/png'')) (str ''http://x/a.png'') ()
       = Inr [''content-length'' \<mapsto> str ''20000000'', ''content-type'' \<mapsto> str ''image/png'']"
    by (simp add: examplePlatform_def)
  have i: "Array_includes ALLOWED_TYPES (Some (str ''image/png''))"
    by (simp add: Array_includes_def ALLOWED_TYPES_def)
  have d: "fst (download (examplePlatform (str ''20000000'') (str ''image/png'')) (str ''http://x/a.png'') ())
       = Inl (Error ''file too large'')"
    by code_simp
  from s h i d show ?thesis by simp
qed

text \<open>
  Claim C6. On the network path, when the reported content length converts to a number
  greater than 10485760, \<open>download\<close> fails with the error "file too large" and the only
  request it has issued is the HEAD request.
\<close>

theorem download_too_large:
  assumes "\<not> startsWith url (str ''data:'')" and "http_head P url headers = Inr head"
    and "js_greater (unaryPlus P (head ''content-length'')) MAX_CONTENT_SIZE"
  shows "download P url headers = (Inl (Error ''file too large''), [HEAD url])
    \<and> GET url \<notin> set (snd (download P url headers))"
  using assms by (simp add: download_network)

theorem download_too_large_witness:
  "\<not> startsWith (str ''http://x/a.png'') (str ''data:'')
   \<and> js_greater (unaryPlus (examplePlatform (str ''20000000'') (str ''image/gif'')) (Some (str ''20000000'')))
        MAX_CONTENT_SIZE
   \<and> download (examplePlatform (str ''20000000'') (str ''image/gif'')) (str ''http://x/a.png'') ()
       = (Inl (Error ''file too large''), [HEAD (str ''http://x/a.png'')])"
proof -
  let ?P = "examplePlatform (str ''20000000'') (str ''image/gif'')"
  let ?head = "[''content-length'' \<mapsto> str ''20000000'', ''content-type'' \<mapsto> str ''image/gif'']"
  have s: "\<not> startsWith (str ''http://x/a.png'') (str ''data:'')" by code_simp
  have h: "http_head ?P (str ''http://x/a.png'') () = Inr ?head"
    by (simp add: examplePlatform_def)
  have l: "?head ''content-length'' = Some (str ''20000000'')" by simp
  have g: "js_greater (unaryPlus ?P (Some (str ''20000000''))) MAX_CONTENT_SIZE"
    by (simp add: unaryPlus_def examplePlatform_def js_greater_def js_less_def MAX_CONTENT_SIZE_def)
  from download_too_large [OF s h] g l s show ?thesis by simp
qed

text \<open>
  Claim C9. When the reported length is over the limit and the reported type is an allowed
  one, the error is "file too large", not "unsupported file type": the size is checked
  first.
\<close>

theorem download_size_before_type:
  assumes "\<not> startsWith url (str ''data:'')" and "http_head P url headers = Inr head"
    and "js_greater (unaryPlus P (head ''content-length'')) MAX_CONTENT_SIZE"
    and "Array_includes ALLOWED_TYPES (head ''content-type'')"
  shows "fst (download P url headers) = Inl (Error ''file too large'')
    \<and> fst (download P url headers) \<noteq> Inl (Error ''unsupported file type'')"
  using assms(1-3) by (simp add: download_network)

theorem download_size_before_type_witness:
  "\<not> startsWith (str ''http://x/a.png'') (str ''data:'')
   \<and> js_greater (unaryPlus (examplePlatform (str ''20000000'') (str ''image/png'')) (Some (str ''20000000'')))
        MAX_CONTENT_SIZE
   \<and> Array_includes ALLOWED_TYPES (Some (str ''image/png''))
   \<and> fst (download (examplePlatform (str ''20000000'') (str ''image/png'')) (str ''http://x/a.png'') ())
       = Inl (Error ''file too large'')"
proof -
  let ?P = "examplePlatform (str ''20000000'') (str ''image/png'')"
  let ?head = "[''content-length'' \<mapsto> str ''20000000'', ''content-type'' \<mapsto> str ''image/png'']"
  have s: "\<not> startsWith (str ''http://x/a.png'') (str ''data:'')" by code_simp
  have h: "http_head ?P (str ''http://x/a.png'') () = Inr ?head"
    by (simp add: examplePlatform_def)
  have g: "js_greater (unaryPlus ?P (Some (str ''20000000''))) MAX_CONTENT_SIZE"
    by (simp add: unaryPlus_def examplePlatform_def js_greater_def js_less_def MAX_CONTENT_SIZE_def)
  have i: "Array_includes ALLOWED_TYPES (Some (str ''image/png''))"
    by (simp add: Array_includes_def ALLOWED_TYPES_def)
  have g': "js_greater (unaryPlus ?P (?head ''content-length'')) MAX_CONTENT_SIZE" using g by simp
  have i': "Array_includes ALLOWED_TYPES (?head ''content-type'')" using i by simp
  from download_size_before_type [OF s h g' i'] s g i show ?thesis by simp
qed

text \<open>
  Claim C10. A string that starts with \<open>data:\<close> and is not of the form
  \<open>data:image/<word>;base64,<payload>\<close> makes \<open>download\<close> fail with the \<open>TypeError\<close> of
  destructuring \<open>null\<close>, not with the error "unsupported image type", and without a
  request.
\<close>

theorem download_data_no_match:
  assumes "startsWith url (str ''data:'')"
    and "\<not> (\<exists>w b. w \<noteq> [] \<and> list_all isWordChar w \<and> \<not> list_ex isLineTerminator b
            \<and> url = str ''data:image/'' @ w @ str '';base64,'' @ b)"
  shows "download P url headers = (Inl TypeError, [])
    \<and> fst (download P url headers) \<noteq> Inl (Error ''unsupported image type'')"
proof -
  have "match_data url = None" by (rule iffD2 [OF match_data_None_iff assms(2)])
  then show ?thesis using assms(1) by (simp add: download_def)
qed

theorem download_data_no_match_witness:
  "startsWith (str ''data:text/plain;base64,AAAA'') (str ''data:'')
   \<and> match_data (str ''data:text/plain;base64,AAAA'') = None
   \<and> download (examplePlatform (str ''1024'') (str ''image/png''))
        (str ''data:text/plain;base64,AAAA'') () = (Inl TypeError, [])"
proof -
  have s: "startsWith (str ''data:text/plain;base64,AAAA'') (str ''data:'')" by code_simp
  have m: "match_data (str ''data:text/plain;base64,AAAA'') = None" by code_simp
  have n: "\<not> (\<exists>w b. w \<noteq> [] \<and> list_all isWordChar w \<and> \<not> list_ex isLineTerminator b
            \<and> str ''data:text/plain;base64,AAAA'' = str ''data:image/'' @ w @ str '';base64,'' @ b)"
    by (rule iffD1 [OF match_data_None_iff m])
  from download_data_no_match
      [OF s n, where P = "examplePlatform (str ''1024'') (str ''image/png'')" and headers = "()"]
    s m
  show ?thesis by simp
qed

section \<open>Properties of \<^verbatim>\<open>calcAccessKey\<close>\<close>

lemma js_slice_0: "0 \<le> n \<Longrightarrow> js_slice s 0 n = take (nat n) s"
  by (simp add: js_slice_def Let_def min_def)

lemma accessKeyDomain_slice:
  "js_slice password 0 6 @ email @ str ''novelai_data_access_key'' = accessKeyDomain_spec email password"
  by (simp add: js_slice_0 accessKeyDomain_spec_def)

lemma calcAccessKey_eq_spec: "calcAccessKey L email password = deriveAccessKey_spec L email password"
proof -
  have k: "js_slice key 0 64 = take 64 key" for key by (simp add: js_slice_0)
  show ?thesis
    unfolding calcAccessKey_def deriveAccessKey_spec_def accessKeyDomain_slice k
    by (simp split: option.splits)
qed

text \<open>
  Claim C7. \<open>calcAccessKey\<close> is a function of the library, the email and the password, and
  it is the derivation of the specification: the salt is the hash of the first six
  characters of the password (the whole password when it is shorter), the email and the
  suffix; the key is the first 64 characters of the encoded output of the password hash
  with output length 64, cost 2 and memory 2000000. When the library is ready and returns
  an encoding of at least 64 characters (the base64 encoding of 64 bytes has 86 or more),
  the result has exactly 64 characters.
\<close>

theorem calcAccessKey_first_64:
  "calcAccessKey L email password = deriveAccessKey_spec L email password
   \<and> (ready L
        \<and> crypto_generichash L (crypto_pwhash_SALTBYTES L) (accessKeyDomain_spec email password) = Some salt
        \<and> crypto_pwhash L 64 (Buffer_from L password) salt 2 2000000
             (crypto_pwhash_ALG_ARGON2ID13 L) ''base64'' = Some key
        \<and> 64 \<le> length key
      \<longrightarrow> calcAccessKey L email password = Some (take 64 key)
          \<and> length (take 64 key) = 64)
   \<and> (length password < 6 \<longrightarrow> js_slice password 0 6 = password)"
  by (simp add: calcAccessKey_eq_spec deriveAccessKey_spec_def js_slice_0)

theorem calcAccessKey_first_64_witness:
  "ready exampleSodium
   \<and> crypto_generichash exampleSodium (crypto_pwhash_SALTBYTES exampleSodium)
        (accessKeyDomain_spec (str ''a@b.c'') (str ''pw'')) = Some (replicate 16 0)
   \<and> crypto_pwhash exampleSodium 64 (Buffer_from exampleSodium (str ''pw'')) (replicate 16 0) 2 2000000
        (crypto_pwhash_ALG_ARGON2ID13 exampleSodium) ''base64'' = Some (replicate 86 65)
   \<and> 64 \<le> length (replicate 86 (65::nat))
   \<and> length (str ''pw'') < 6
   \<and> calcAccessKey exampleSodium (str ''a@b.c'') (str ''pw'') = Some (replicate 64 65)
   \<and> js_slice (str ''pw'') 0 6 = str ''pw''"
proof -
  have a: "ready exampleSodium" by (simp add: exampleSodium_def)
  have b: "crypto_generichash exampleSodium (crypto_pwhash_SALTBYTES exampleSodium)
        (accessKeyDomain_spec (str ''a@b.c'') (str ''pw'')) = Some (replicate 16 0)"
    by (simp add: exampleSodium_def)
  have c: "crypto_pwhash exampleSodium 64 (Buffer_from exampleSodium (str ''pw'')) (replicate 16 0) 2 2000000
        (crypto_pwhash_ALG_ARGON2ID13 exampleSodium) ''base64'' = Some (replicate 86 65)"
    by (simp add: exampleSodium_def)
  have d: "64 \<le> length (replicate 86 (65::nat))" by simp
  have e: "length (str ''pw'') < 6" by (simp add: str_def)
  have t: "take 64 (replicate 86 (65::nat)) = replicate 64 65" by simp
  note th = calcAccessKey_first_64
    [of exampleSodium "str ''a@b.c''" "str ''pw''" "replicate 16 0" "replicate 86 65"]
  from th a b c d have "calcAccessKey exampleSodium (str ''a@b.c'') (str ''pw'')
      = Some (take 64 (replicate 86 65))" by blast
  then have k: "calcAccessKey exampleSodium (str ''a@b.c'') (str ''pw'') = Some (replicate 64 65)"
    by (simp only: t)
  from th e have sl: "js_slice (str ''pw'') 0 6 = str ''pw''" by blast
  from a b c d e k sl show ?thesis by blast
qed

end
